theory Spec2Isabelle
  imports Main "HOL-Library.Word"
begin

unbundle bit_operations_syntax

section \<open>Arithmetic in GF(2^8)  (package reedsolomon, galois field file)\<close>

text \<open>
  \<^verbatim>\<open>type gfElement uint8\<close>: a field element is one byte.  The two tables are the
  \<^verbatim>\<open>[256]gfElement\<close> and \<^verbatim>\<open>[256]int\<close> arrays of the source, entry for entry.
\<close>

type_synonym gfElement = "8 word"

text \<open>
  A Go panic is a value: the three \<^verbatim>\<open>log.Panic\<close> calls of the package and the run-time
  panic of an array or slice index out of range.
\<close>

datatype panic =
    DivideByZero            \<comment> \<open>\<^verbatim>\<open>log.Panicln("Divide by zero")\<close>\<close>
  | NoInverseOfZero         \<comment> \<open>\<^verbatim>\<open>log.Panicln("No multiplicative inverse of 0")\<close>\<close>
  | DegreeTooSmall          \<comment> \<open>\<^verbatim>\<open>log.Panic("degree < 2")\<close>\<close>
  | IndexOutOfRange         \<comment> \<open>run-time panic: index out of range\<close>
  | NilDereference          \<comment> \<open>run-time panic: nil pointer dereference\<close>
  | SliceLenOutOfRange      \<comment> \<open>run-time panic: \<^verbatim>\<open>make\<close> with a negative length\<close>
  | SubstrOutOfRange        \<comment> \<open>\<^verbatim>\<open>Substr\<close> called outside the bit stream\<close>
  | PaddingLengthMismatch   \<comment> \<open>\<^verbatim>\<open>log.Panicf("BUG: got len %d, expected %d", ...)\<close>\<close>
  | BuildSymbolFailed       \<comment> \<open>\<^verbatim>\<open>log.Panic(err.Error())\<close> in \<^verbatim>\<open>encode\<close>\<close>
  | EmptyModulesLeft        \<comment> \<open>\<^verbatim>\<open>log.Panicf("bug: numEmptyModules is %d ...")\<close>\<close>

definition gfZero :: gfElement where
  "gfZero = 0"

definition gfOne :: gfElement where
  "gfOne = 1"

definition gfExpTable :: "gfElement list" where
  "gfExpTable =
   [1, 2, 4, 8, 16, 32, 64, 128, 29, 58,
    116, 232, 205, 135, 19, 38, 76, 152, 45, 90,
    180, 117, 234, 201, 143, 3, 6, 12, 24, 48,
    96, 192, 157, 39, 78, 156, 37, 74, 148, 53,
    106, 212, 181, 119, 238, 193, 159, 35, 70, 140,
    5, 10, 20, 40, 80, 160, 93, 186, 105, 210,
    185, 111, 222, 161, 95, 190, 97, 194, 153, 47,
    94, 188, 101, 202, 137, 15, 30, 60, 120, 240,
    253, 231, 211, 187, 107, 214, 177, 127, 254, 225,
    223, 163, 91, 182, 113, 226, 217, 175, 67, 134,
    17, 34, 68, 136, 13, 26, 52, 104, 208, 189,
    103, 206, 129, 31, 62, 124, 248, 237, 199, 147,
    59, 118, 236, 197, 151, 51, 102, 204, 133, 23,
    46, 92, 184, 109, 218, 169, 79, 158, 33, 66,
    132, 21, 42, 84, 168, 77, 154, 41, 82, 164,
    85, 170, 73, 146, 57, 114, 228, 213, 183, 115,
    230, 209, 191, 99, 198, 145, 63, 126, 252, 229,
    215, 179, 123, 246, 241, 255, 227, 219, 171, 75,
    150, 49, 98, 196, 149, 55, 110, 220, 165, 87,
    174, 65, 130, 25, 50, 100, 200, 141, 7, 14,
    28, 56, 112, 224, 221, 167, 83, 166, 81, 162,
    89, 178, 121, 242, 249, 239, 195, 155, 43, 86,
    172, 69, 138, 9, 18, 36, 72, 144, 61, 122,
    244, 245, 247, 243, 251, 235, 203, 139, 11, 22,
    44, 88, 176, 125, 250, 233, 207, 131, 27, 54,
    108, 216, 173, 71, 142, 1]"

definition gfLogTable :: "int list" where
  "gfLogTable =
   [-1, 0, 1, 25, 2, 50, 26, 198, 3, 223,
    51, 238, 27, 104, 199, 75, 4, 100, 224, 14,
    52, 141, 239, 129, 28, 193, 105, 248, 200, 8,
    76, 113, 5, 138, 101, 47, 225, 36, 15, 33,
    53, 147, 142, 218, 240, 18, 130, 69, 29, 181,
    194, 125, 106, 39, 249, 185, 201, 154, 9, 120,
    77, 228, 114, 166, 6, 191, 139, 98, 102, 221,
    48, 253, 226, 152, 37, 179, 16, 145, 34, 136,
    54, 208, 148, 206, 143, 150, 219, 189, 241, 210,
    19, 92, 131, 56, 70, 64, 30, 66, 182, 163,
    195, 72, 126, 110, 107, 58, 40, 84, 250, 133,
    186, 61, 202, 94, 155, 159, 10, 21, 121, 43,
    78, 212, 229, 172, 115, 243, 167, 87, 7, 112,
    192, 247, 140, 128, 99, 13, 103, 74, 222, 237,
    49, 197, 254, 24, 227, 165, 153, 119, 38, 184,
    180, 124, 17, 68, 146, 217, 35, 32, 137, 46,
    55, 63, 209, 91, 149, 188, 207, 205, 144, 135,
    151, 178, 220, 252, 190, 97, 242, 86, 211, 171,
    20, 42, 93, 158, 132, 60, 57, 83, 71, 109,
    65, 162, 31, 45, 67, 216, 183, 123, 164, 118,
    196, 23, 73, 236, 127, 12, 111, 246, 108, 161,
    59, 82, 41, 157, 85, 170, 251, 96, 134, 177,
    187, 204, 62, 90, 203, 89, 95, 176, 156, 169,
    160, 81, 11, 245, 22, 235, 122, 117, 44, 215,
    79, 174, 213, 233, 230, 231, 173, 232, 116, 214,
    244, 234, 168, 80, 88, 175]"

text \<open>
  Go's \<^verbatim>\<open>%\<close> on \<^verbatim>\<open>int\<close> truncates towards zero: the remainder has the sign of the
  dividend.
\<close>

definition go_rem :: "int \<Rightarrow> int \<Rightarrow> int" where
  "go_rem a b = a - b * (sgn a * sgn b * (\<bar>a\<bar> div \<bar>b\<bar>))"

text \<open>\<^verbatim>\<open>gfAdd\<close> and \<^verbatim>\<open>gfSub\<close>: both are \<^verbatim>\<open>a ^ b\<close>.\<close>

definition gfAdd :: "gfElement \<Rightarrow> gfElement \<Rightarrow> gfElement" where
  "gfAdd a b = a XOR b"

definition gfSub :: "gfElement \<Rightarrow> gfElement \<Rightarrow> gfElement" where
  "gfSub a b = a XOR b"

text \<open>
  \<^verbatim>\<open>gfMultiply\<close>.  The index into \<^verbatim>\<open>gfLogTable\<close> is a \<^verbatim>\<open>uint8\<close>, so it is in range;
  the index into \<^verbatim>\<open>gfExpTable\<close> is in range whenever both factors are nonzero (lemma
  \<open>gfMultiply_index_in_range\<close> below), which is the only case that reaches it.
\<close>

definition gfMultiply :: "gfElement \<Rightarrow> gfElement \<Rightarrow> gfElement" where
  "gfMultiply a b =
     (if a = gfZero \<or> b = gfZero then gfZero
      else gfExpTable ! nat (go_rem (gfLogTable ! unat a + gfLogTable ! unat b) 255))"

text \<open>\<^verbatim>\<open>gfInverse\<close>: panics on zero, else \<^verbatim>\<open>gfExpTable[255-gfLogTable[a]]\<close>.\<close>

definition gfInverse :: "gfElement \<Rightarrow> panic + gfElement" where
  "gfInverse a =
     (if a = gfZero then Inl NoInverseOfZero
      else Inr (gfExpTable ! nat (255 - gfLogTable ! unat a)))"

text \<open>
  \<^verbatim>\<open>gfDivide\<close>: the zero dividend is tested first, then the zero divisor (a panic, so
  nothing after it runs), then \<^verbatim>\<open>gfMultiply(a, gfInverse(b))\<close>.
\<close>

definition gfDivide :: "gfElement \<Rightarrow> gfElement \<Rightarrow> panic + gfElement" where
  "gfDivide a b =
     (if a = gfZero then Inr gfZero
      else if b = gfZero then Inl DivideByZero
      else (case gfInverse b of
              Inl p \<Rightarrow> Inl p
            | Inr i \<Rightarrow> Inr (gfMultiply a i)))"

section \<open>Bit streams  (package bitset)\<close>

text \<open>
  Modelled from the spec: the package \<^verbatim>\<open>bitset\<close> is not among the sources.  Sections 3
  and 4.A describe it: an append-only sequence of booleans in insertion order, with
  \<^verbatim>\<open>Len\<close>, appending \<open>n\<close> copies of a bit, appending another stream, appending raw
  bytes most significant bit first, the sub-range \<open>[start, end)\<close> as an independent
  stream, \<^verbatim>\<open>Clone\<close>, and packing to bytes most significant bit first with the last byte
  padded with zeros on the right.  A sub-range exists only for
  \<open>0 \<le> start \<le> end \<le> Len\<close>; outside that \<^verbatim>\<open>Substr\<close> cannot return one and panics.
\<close>

type_synonym bitset = "bool list"

definition Len :: "bitset \<Rightarrow> int" where
  "Len b = int (length b)"

definition AppendNumBools :: "bitset \<Rightarrow> int \<Rightarrow> bool \<Rightarrow> bitset" where
  "AppendNumBools b num v = b @ replicate (nat num) v"

definition Append :: "bitset \<Rightarrow> bitset \<Rightarrow> bitset" where
  "Append b other = b @ other"

definition Substr :: "bitset \<Rightarrow> int \<Rightarrow> int \<Rightarrow> panic + bitset" where
  "Substr b start end' =
     (if start < 0 \<or> start > end' \<or> end' > Len b then Inl SubstrOutOfRange
      else Inr (take (nat (end' - start)) (drop (nat start) b)))"

definition Clone :: "bitset \<Rightarrow> bitset" where
  "Clone b = b"

text \<open>One byte from up to eight bits, most significant first, zeros on the right.\<close>

definition byteOfBits :: "bool list \<Rightarrow> gfElement" where
  "byteOfBits bs =
     foldl (\<lambda>acc b. 2 * acc + (if b then 1 else 0)) 0 (take 8 (bs @ replicate 8 False))"

fun toBytes :: "bitset \<Rightarrow> gfElement list" where
  "toBytes [] = []"
| "toBytes (b # bs) = byteOfBits (b # take 7 bs) # toBytes (drop 7 bs)"

definition bitsOfByte :: "gfElement \<Rightarrow> bool list" where
  "bitsOfByte v = map (\<lambda>k. bit v k) [7, 6, 5, 4, 3, 2, 1, 0]"

definition AppendBytes :: "bitset \<Rightarrow> gfElement list \<Rightarrow> bitset" where
  "AppendBytes b bytes = b @ concat (map bitsOfByte bytes)"

section \<open>Polynomials over GF(2^8)  (package reedsolomon, polynomial file)\<close>

text \<open>
  Modelled from the spec: the polynomial file of package \<^verbatim>\<open>reedsolomon\<close> (\<^verbatim>\<open>gfPoly\<close>,
  \<^verbatim>\<open>newGFPolyFromData\<close>, \<^verbatim>\<open>newGFPolyMonomial\<close>, \<^verbatim>\<open>gfPolyMultiply\<close>, \<^verbatim>\<open>gfPolyRemainder\<close> and
  the method \<^verbatim>\<open>data\<close>) is not among the sources.  Section 3 and section 4.C describe it.
  A polynomial is the sequence \<^verbatim>\<open>term[0..d]\<close>, entry \<open>i\<close> the coefficient of \<open>x^i\<close>.  The
  coefficient arithmetic is \<^verbatim>\<open>gfAdd\<close> and \<^verbatim>\<open>gfMultiply\<close> of the source.
\<close>

type_synonym gfPoly = "gfElement list"

text \<open>
  From bytes: the coefficients, in descending degree order, are the input bytes; the
  first byte is the coefficient of the highest degree.
\<close>

definition newGFPolyFromData :: "bitset \<Rightarrow> gfPoly" where
  "newGFPolyFromData data = rev (toBytes data)"

text \<open>Monomial: \<open>c \<cdot> x^d\<close>.\<close>

definition newGFPolyMonomial :: "gfElement \<Rightarrow> int \<Rightarrow> gfPoly" where
  "newGFPolyMonomial c d = replicate (nat d) 0 @ [c]"

text \<open>Addition: coefficient by coefficient, the longer polynomial keeping its top.\<close>

fun gfPolyAdd :: "gfPoly \<Rightarrow> gfPoly \<Rightarrow> gfPoly" where
  "gfPolyAdd [] b = b"
| "gfPolyAdd a [] = a"
| "gfPolyAdd (x # a) (y # b) = gfAdd x y # gfPolyAdd a b"

text \<open>
  Multiply: schoolbook convolution, every coefficient of \<open>a\<close> times all of \<open>b\<close>, shifted to
  its place and added up; the result has \<open>len(a) + len(b) - 1\<close> coefficients.
\<close>

fun gfPolyMultiply :: "gfPoly \<Rightarrow> gfPoly \<Rightarrow> gfPoly" where
  "gfPolyMultiply [] b = []"
| "gfPolyMultiply a [] = []"
| "gfPolyMultiply [x] b = map (gfMultiply x) b"
| "gfPolyMultiply (x # a) b = gfPolyAdd (map (gfMultiply x) b) (0 # gfPolyMultiply a b)"

text \<open>
  Remainder: long division of \<open>a\<close> by \<open>b\<close>, \<open>deg(a) - deg(b) + 1\<close> steps.  Each step
  multiplies \<open>b\<close> by the leading coefficient of the current residue, lined up with the
  residue's top, adds it to the residue, and the residue loses its top coefficient; the
  result has \<open>deg(b)\<close> coefficients.  With \<open>deg(b) > deg(a)\<close> there is no step.
\<close>

fun remainderSteps :: "nat \<Rightarrow> gfPoly \<Rightarrow> gfPoly \<Rightarrow> gfPoly" where
  "remainderSteps 0 r b = r"
| "remainderSteps (Suc t) r b =
     remainderSteps t
       (butlast (gfPolyAdd r
          (gfPolyMultiply b (newGFPolyMonomial (last r) (int (length r) - int (length b))))))
       b"

definition gfPolyRemainder :: "gfPoly \<Rightarrow> gfPoly \<Rightarrow> gfPoly" where
  "gfPolyRemainder a b =
     (if b = [] \<or> length a < length b then a
      else remainderSteps (Suc (length a - length b)) a b)"

text \<open>
  The method \<^verbatim>\<open>data(n)\<close>: the top \<open>n\<close> coefficients as bytes in descending degree order,
  padded with zeros on the left when the polynomial has fewer than \<open>n\<close> coefficients.
\<close>

definition polyData :: "gfPoly \<Rightarrow> int \<Rightarrow> gfElement list" where
  "polyData p n = replicate (nat n - length p) 0 @ take (nat n) (rev p)"

section \<open>The Reed-Solomon encoder  (package reedsolomon, encoder file)\<close>

text \<open>
  \<^verbatim>\<open>rsGeneratorPoly\<close>.  The loop \<^verbatim>\<open>for i := 0; i < degree; i++\<close> reads \<^verbatim>\<open>gfExpTable[i]\<close>; the
  table is an array of 256 entries, and Go panics on an index outside an array.
\<close>

function rsGeneratorLoop :: "int \<Rightarrow> int \<Rightarrow> gfPoly \<Rightarrow> panic + gfPoly" where
  "rsGeneratorLoop i degree generator =
     (if i < degree
      then (if 0 \<le> i \<and> i < int (length gfExpTable)
            then rsGeneratorLoop (i + 1) degree
                   (gfPolyMultiply generator [gfExpTable ! nat i, 1])
            else Inl IndexOutOfRange)
      else Inr generator)"
  by pat_completeness auto
termination
  by (relation "measure (\<lambda>(i, degree, generator). nat (degree - i))") auto

definition rsGeneratorPoly :: "int \<Rightarrow> panic + gfPoly" where
  "rsGeneratorPoly degree =
     (if degree < 2 then Inl DegreeTooSmall
      else rsGeneratorLoop 0 degree [1])"

text \<open>
  \<^verbatim>\<open>Encode\<close>, on the bits: the message polynomial times \<open>x^numECBytes\<close>, the generator (which
  may panic), the remainder, and its \<open>numECBytes\<close> bytes appended to a clone of the data.
\<close>

definition Encode :: "bitset \<Rightarrow> int \<Rightarrow> panic + bitset" where
  "Encode data numECBytes =
     (let ecpoly = gfPolyMultiply (newGFPolyFromData data) (newGFPolyMonomial gfOne numECBytes)
      in case rsGeneratorPoly numECBytes of
           Inl p \<Rightarrow> Inl p
         | Inr generator \<Rightarrow>
             let remainder = gfPolyRemainder ecpoly generator
             in Inr (AppendBytes (Clone data) (polyData remainder numECBytes)))"

section \<open>The encoder on pointers\<close>

text \<open>
  \<^verbatim>\<open>Encode\<close> takes and returns \<^verbatim>\<open>*bitset.Bitset\<close>.  To speak about what it does to its
  argument, the bit streams live in a store, a pointer is an index into it, and an
  allocation appends a new cell.  Modelled from the spec: \<^verbatim>\<open>bitset.Clone\<close> allocates an
  independent copy, and \<^verbatim>\<open>AppendBytes\<close> changes the stream it is called on, in place.
  A pointer outside the store is a nil pointer.
\<close>

type_synonym store = "bitset list"

definition CloneAt :: "store \<Rightarrow> nat \<Rightarrow> nat \<times> store" where
  "CloneAt h from = (length h, h @ [Clone (h ! from)])"

definition AppendBytesAt :: "store \<Rightarrow> nat \<Rightarrow> gfElement list \<Rightarrow> store" where
  "AppendBytesAt h b bytes = h[b := AppendBytes (h ! b) bytes]"

definition EncodeAt :: "store \<Rightarrow> nat \<Rightarrow> int \<Rightarrow> (panic + nat) \<times> store" where
  "EncodeAt h data numECBytes =
     (if \<not> data < length h then (Inl NilDereference, h)
      else
        let ecpoly = gfPolyMultiply (newGFPolyFromData (h ! data))
                       (newGFPolyMonomial gfOne numECBytes)
        in case rsGeneratorPoly numECBytes of
             Inl p \<Rightarrow> (Inl p, h)
           | Inr generator \<Rightarrow>
               let remainder = gfPolyRemainder ecpoly generator;
                   (result, h1) = CloneAt h data;
                   h2 = AppendBytesAt h1 result (polyData remainder numECBytes)
               in (Inr result, h2))"

section \<open>The version catalog  (type qrCodeVersion)\<close>

text \<open>
  Modelled from the spec: the version file (the type \<^verbatim>\<open>qrCodeVersion\<close>, its methods and
  \<^verbatim>\<open>chooseQRCodeVersion\<close>) is not among the sources.  Sections 3 and 4.F describe the
  descriptor, section 4.E the capacity selection.
\<close>

type_synonym RecoveryLevel = int

text \<open>
  The four levels L, M, Q and H.  \<^verbatim>\<open>RecoveryLevel\<close> is an integer type; the program
  passes \<^verbatim>\<open>qrcode.Highest\<close>.  The numbering is not in the sources; nothing below depends
  on it.
\<close>

definition Low :: RecoveryLevel where "Low = 0"
definition Medium :: RecoveryLevel where "Medium = 1"
definition High :: RecoveryLevel where "High = 2"
definition Highest :: RecoveryLevel where "Highest = 3"

text \<open>One group of equal blocks, and a version: the fields the functions below read.\<close>

record block =
  numBlocks :: int
  numCodewords :: int
  numDataCodewords :: int

record qrCodeVersion =
  level :: RecoveryLevel
  version :: int
  block :: "block list"
  numRemainderBits :: int

text \<open>
  \<^verbatim>\<open>numDataBits()\<close> and \<^verbatim>\<open>numBlocks()\<close>: section 4.F, the payload capacity is the sum over
  the blocks of \<open>data_codewords_per_block \<cdot> 8\<close>, and the number of blocks is the sum of the
  groups' counts.
\<close>

definition numDataBits :: "qrCodeVersion \<Rightarrow> int" where
  "numDataBits v = sum_list (map (\<lambda>b. 8 * numBlocks b * numDataCodewords b) (block v))"

definition totalNumBlocks :: "qrCodeVersion \<Rightarrow> int" where
  "totalNumBlocks v = sum_list (map numBlocks (block v))"

text \<open>
  \<^verbatim>\<open>numTerminatorBitsRequired\<close>: the terminator is four zero bits, fewer when fewer than
  four bits are free.  \<^verbatim>\<open>numBitsToPadToCodeword\<close>: the zero bits up to the next codeword
  boundary.
\<close>

definition numTerminatorBitsRequired :: "qrCodeVersion \<Rightarrow> int \<Rightarrow> int" where
  "numTerminatorBitsRequired v numDataBits' =
     (let numFreeBits = numDataBits v - numDataBits'
      in if numFreeBits \<ge> 4 then 4 else numFreeBits)"

definition numBitsToPadToCodeword :: "qrCodeVersion \<Rightarrow> int \<Rightarrow> int" where
  "numBitsToPadToCodeword v numDataBits' = go_rem (8 - go_rem numDataBits' 8) 8"

text \<open>
  The three encoder variants, one per version band (section 4.E), and capacity
  selection: the smallest version of the band, at the level, whose \<open>num_data_bits\<close> is
  at least the encoded length (the terminator takes no room when none is left).  The
  catalog itself, the list \<^verbatim>\<open>versions\<close>, is a parameter.
\<close>

datatype dataEncoderType = dataEncoderType1To9 | dataEncoderType10To26 | dataEncoderType27To40

fun minVersion :: "dataEncoderType \<Rightarrow> int" where
  "minVersion dataEncoderType1To9 = 1"
| "minVersion dataEncoderType10To26 = 10"
| "minVersion dataEncoderType27To40 = 27"

fun maxVersion :: "dataEncoderType \<Rightarrow> int" where
  "maxVersion dataEncoderType1To9 = 9"
| "maxVersion dataEncoderType10To26 = 26"
| "maxVersion dataEncoderType27To40 = 40"

definition chooseQRCodeVersion ::
  "qrCodeVersion list \<Rightarrow> RecoveryLevel \<Rightarrow> dataEncoderType \<Rightarrow> int \<Rightarrow> qrCodeVersion option" where
  "chooseQRCodeVersion versions level' t numDataBits' =
     (let fitting = filter (\<lambda>v. level v = level' \<and> minVersion t \<le> version v
                                 \<and> version v \<le> maxVersion t \<and> numDataBits v \<ge> numDataBits')
                      versions
      in if fitting = [] then None else Some (arg_min_list version fitting))"

section \<open>The symbol builder  (file qrcode.go)\<close>

text \<open>
  The errors \<^verbatim>\<open>New\<close> can return: its own \<^verbatim>\<open>errors.New("content too long to encode")\<close>, and
  whatever the data encoder returned.  \<open>InvalidRecoveryLevel\<close> is the error the
  specification names; no statement of the source constructs it.
\<close>

datatype error = ContentTooLong | InvalidRecoveryLevel | OtherError string

text \<open>
  The local type \<^verbatim>\<open>dataBlock\<close> of \<^verbatim>\<open>encodeBlocks\<close> (the pointer \<^verbatim>\<open>data\<close> is nil until it
  is assigned) and the type \<^verbatim>\<open>QRCode\<close>.  The two colours, which none of the functions
  below reads, are left out; \<open>'sym\<close> is the type of symbols, which is not among the
  sources.
\<close>

record dataBlock =
  data :: "bitset option"
  ecStartOffset :: int

record 'sym QRCode =
  Content :: string
  Level :: RecoveryLevel
  VersionNumber :: int
  DisableBorder :: bool
  encoder :: dataEncoderType
  version :: qrCodeVersion
  data :: bitset
  symbol :: "'sym option"
  mask :: int

text \<open>\<^verbatim>\<open>addTerminatorBits\<close> and \<^verbatim>\<open>addPadding\<close>.  The loop of \<^verbatim>\<open>addPadding\<close> is \<open>padLoop\<close>.\<close>

definition addTerminatorBits :: "'sym QRCode \<Rightarrow> int \<Rightarrow> 'sym QRCode" where
  "addTerminatorBits q numTerminatorBits =
     q\<lparr>data := AppendNumBools (data q) numTerminatorBits False\<rparr>"

definition padding :: "bitset list" where
  "padding = [[True, True, True, False, True, True, False, False],
              [False, False, False, True, False, False, False, True]]"

function padLoop :: "int \<Rightarrow> bitset \<Rightarrow> int \<Rightarrow> panic + bitset" where
  "padLoop numDataBits' d i =
     (if numDataBits' - Len d \<ge> 8
      then (if 0 \<le> i \<and> i < int (length padding)
            then padLoop numDataBits' (Append d (padding ! nat i)) (1 - i)
            else Inl IndexOutOfRange)
      else Inr d)"
  by pat_completeness auto
termination
proof (relation "measure (\<lambda>(n, d, i). nat (n - Len d))")
  show "wf (measure (\<lambda>(n, d, i). nat (n - Len d)))" by simp
next
  fix numDataBits' :: int and d :: bitset and i :: int
  assume a: "8 \<le> numDataBits' - Len d" "0 \<le> i \<and> i < int (length padding)"
  then have "i = 0 \<or> i = 1" by (auto simp: padding_def)
  then have "length (padding ! nat i) = 8" by (auto simp: padding_def)
  with a show "((numDataBits', Append d (padding ! nat i), 1 - i), (numDataBits', d, i))
        \<in> measure (\<lambda>(n, d, i). nat (n - Len d))"
    by (simp add: Len_def Append_def)
qed

definition addPadding :: "'sym QRCode \<Rightarrow> panic + 'sym QRCode" where
  "addPadding q =
     (let numDataBits' = numDataBits (version q)
      in if Len (data q) = numDataBits' then Inr q
         else (case padLoop numDataBits'
                      (AppendNumBools (data q)
                         (numBitsToPadToCodeword (version q) (Len (data q))) False) 0 of
                 Inl p \<Rightarrow> Inl p
               | Inr d \<Rightarrow>
                   if Len d \<noteq> numDataBits' then Inl PaddingLengthMismatch
                   else Inr (q\<lparr>data := d\<rparr>)))"

text \<open>
  \<^verbatim>\<open>encodeBlocks\<close>, first loop nest: \<open>splitGroup\<close> is the inner loop over the
  \<^verbatim>\<open>b.numBlocks\<close> blocks of one group (its counter is not read in the body, so it is a
  count), \<open>splitBlocks\<close> the outer loop over the groups.  The state is the array
  \<^verbatim>\<open>block\<close>, \<^verbatim>\<open>end\<close> and \<^verbatim>\<open>blockID\<close>; \<^verbatim>\<open>start\<close> is always the previous \<^verbatim>\<open>end\<close>.
\<close>

fun splitGroup ::
  "bitset \<Rightarrow> block \<Rightarrow> nat \<Rightarrow> dataBlock list \<times> int \<times> int
     \<Rightarrow> panic + dataBlock list \<times> int \<times> int" where
  "splitGroup d b 0 st = Inr st"
| "splitGroup d b (Suc j) (blocks, end', blockID) =
     (let start = end';
          end'' = start + numDataCodewords b * 8;
          numErrorCodewords = numCodewords b - numDataCodewords b
      in case Substr d start end'' of
           Inl p \<Rightarrow> Inl p
         | Inr sub \<Rightarrow>
            (case Encode sub numErrorCodewords of
               Inl p \<Rightarrow> Inl p
             | Inr enc \<Rightarrow>
                 if 0 \<le> blockID \<and> blockID < int (length blocks)
                 then splitGroup d b j
                        (blocks[nat blockID :=
                                  \<lparr>dataBlock.data = Some enc, ecStartOffset = end'' - start\<rparr>],
                         end'', blockID + 1)
                 else Inl IndexOutOfRange))"

fun splitBlocks ::
  "bitset \<Rightarrow> block list \<Rightarrow> dataBlock list \<times> int \<times> int
     \<Rightarrow> panic + dataBlock list \<times> int \<times> int" where
  "splitBlocks d [] st = Inr st"
| "splitBlocks d (b # bs) st =
     (case splitGroup d b (nat (numBlocks b)) st of
        Inl p \<Rightarrow> Inl p
      | Inr st' \<Rightarrow> splitBlocks d bs st')"

text \<open>
  The two interleaving loops.  \<open>dataColumn\<close> and \<open>ecColumn\<close> are the inner loops over
  the blocks at one offset \<open>i\<close>, returning the result and the flag \<^verbatim>\<open>working\<close>;
  \<open>combineData\<close> and \<open>combineEC\<close> are the outer loops \<^verbatim>\<open>for i := 0; working; i += 8\<close>.
\<close>

fun dataColumn :: "dataBlock list \<Rightarrow> int \<Rightarrow> bitset \<times> bool \<Rightarrow> panic + bitset \<times> bool" where
  "dataColumn [] i st = Inr st"
| "dataColumn (b # bs) i (result, working) =
     (if i \<ge> ecStartOffset b then dataColumn bs i (result, working)
      else (case dataBlock.data b of
              None \<Rightarrow> Inl NilDereference
            | Some bits \<Rightarrow>
               (case Substr bits i (i + 8) of
                  Inl p \<Rightarrow> Inl p
                | Inr byte \<Rightarrow> dataColumn bs i (Append result byte, True))))"

fun ecColumn :: "dataBlock list \<Rightarrow> int \<Rightarrow> bitset \<times> bool \<Rightarrow> panic + bitset \<times> bool" where
  "ecColumn [] i st = Inr st"
| "ecColumn (b # bs) i (result, working) =
     (let offset = i + ecStartOffset b
      in case dataBlock.data b of
           None \<Rightarrow> Inl NilDereference
         | Some bits \<Rightarrow>
             if offset \<ge> Len bits then ecColumn bs i (result, working)
             else (case Substr bits offset (offset + 8) of
                     Inl p \<Rightarrow> Inl p
                   | Inr byte \<Rightarrow> ecColumn bs i (Append result byte, True)))"

text \<open>
  The outer loops end: an inner loop sets \<^verbatim>\<open>working\<close> only when some block reaches
  beyond \<open>i\<close>, and \<open>i\<close> grows.
\<close>

fun maxDataOffset :: "dataBlock list \<Rightarrow> int" where
  "maxDataOffset [] = 0"
| "maxDataOffset (b # bs) = max (ecStartOffset b) (maxDataOffset bs)"

fun maxECLength :: "dataBlock list \<Rightarrow> int" where
  "maxECLength [] = 0"
| "maxECLength (b # bs) =
     max (case dataBlock.data b of None \<Rightarrow> 0 | Some bits \<Rightarrow> Len bits - ecStartOffset b)
         (maxECLength bs)"

function combineData :: "dataBlock list \<Rightarrow> int \<Rightarrow> bitset \<Rightarrow> panic + bitset" where
  "combineData blocks i result =
     (case dataColumn blocks i (result, False) of
        Inl p \<Rightarrow> Inl p
      | Inr (result', working) \<Rightarrow>
          if working then combineData blocks (i + 8) result' else Inr result')"
  by pat_completeness auto
termination
proof (relation "measure (\<lambda>(blocks, i, result). nat (maxDataOffset blocks - i))")
  show "wf (measure (\<lambda>(blocks, i, result). nat (maxDataOffset blocks - i)))" by simp
next
  fix blocks :: "dataBlock list" and i :: int and result :: bitset
    and x2 :: "bitset \<times> bool" and x y
  assume "dataColumn blocks i (result, False) = Inr x2" "(x, y) = x2" "y"
  then have col: "dataColumn blocks i (result, False) = Inr (x, True)" by auto
  have working: "w \<or> i < maxDataOffset bs" if "dataColumn bs i (r, w) = Inr (r', True)"
    for bs r w r'
    using that
  proof (induction bs arbitrary: r w)
    case Nil
    then show ?case by simp
  next
    case (Cons b bs)
    show ?case
    proof (cases "i \<ge> ecStartOffset b")
      case True
      with Cons.prems have "dataColumn bs i (r, w) = Inr (r', True)" by simp
      from Cons.IH [OF this] show ?thesis by auto
    next
      case False
      then show ?thesis by auto
    qed
  qed
  from working [OF col] have "i < maxDataOffset blocks" by simp
  then show "((blocks, i + 8, x), (blocks, i, result))
        \<in> measure (\<lambda>(blocks, i, result). nat (maxDataOffset blocks - i))"
    by simp
qed

declare combineData.simps [simp del]

function combineEC :: "dataBlock list \<Rightarrow> int \<Rightarrow> bitset \<Rightarrow> panic + bitset" where
  "combineEC blocks i result =
     (case ecColumn blocks i (result, False) of
        Inl p \<Rightarrow> Inl p
      | Inr (result', working) \<Rightarrow>
          if working then combineEC blocks (i + 8) result' else Inr result')"
  by pat_completeness auto
termination
proof (relation "measure (\<lambda>(blocks, i, result). nat (maxECLength blocks - i))")
  show "wf (measure (\<lambda>(blocks, i, result). nat (maxECLength blocks - i)))" by simp
next
  fix blocks :: "dataBlock list" and i :: int and result :: bitset
    and x2 :: "bitset \<times> bool" and x y
  assume "ecColumn blocks i (result, False) = Inr x2" "(x, y) = x2" "y"
  then have col: "ecColumn blocks i (result, False) = Inr (x, True)" by auto
  have working: "w \<or> i < maxECLength bs" if "ecColumn bs i (r, w) = Inr (r', True)"
    for bs r w r'
    using that
  proof (induction bs arbitrary: r w)
    case Nil
    then show ?case by simp
  next
    case (Cons b bs)
    show ?case
    proof (cases "dataBlock.data b")
      case None
      with Cons.prems show ?thesis by simp
    next
      case (Some bits)
      show ?thesis
      proof (cases "i + ecStartOffset b \<ge> Len bits")
        case True
        with Cons.prems Some have "ecColumn bs i (r, w) = Inr (r', True)" by simp
        from Cons.IH [OF this] show ?thesis by auto
      next
        case False
        with Some show ?thesis by auto
      qed
    qed
  qed
  from working [OF col] have "i < maxECLength blocks" by simp
  then show "((blocks, i + 8, x), (blocks, i, result))
        \<in> measure (\<lambda>(blocks, i, result). nat (maxECLength blocks - i))"
    by simp
qed

declare combineEC.simps [simp del]

definition encodeBlocks :: "'sym QRCode \<Rightarrow> panic + bitset" where
  "encodeBlocks q =
     (if totalNumBlocks (version q) < 0 then Inl SliceLenOutOfRange
      else
        case splitBlocks (data q) (block (version q))
               (replicate (nat (totalNumBlocks (version q)))
                  \<lparr>dataBlock.data = None, ecStartOffset = 0\<rparr>, 0, 0) of
          Inl p \<Rightarrow> Inl p
        | Inr (blocks, end', blockID) \<Rightarrow>
           (case combineData blocks 0 [] of
              Inl p \<Rightarrow> Inl p
            | Inr result \<Rightarrow>
               (case combineEC blocks 0 result of
                  Inl p \<Rightarrow> Inl p
                | Inr result' \<Rightarrow>
                    Inr (AppendNumBools result' (numRemainderBits (version q)) False))))"

text \<open>
  \<^verbatim>\<open>encode\<close>.  \<^verbatim>\<open>buildRegularSymbol\<close>, \<^verbatim>\<open>numEmptyModules\<close> and \<^verbatim>\<open>penaltyScore\<close> are not among
  the sources: they are parameters.  \<open>maskLoop\<close> is the loop over the masks, its state
  the fields of \<open>q\<close> and the local \<^verbatim>\<open>penalty\<close>.
\<close>

definition numMasks :: int where
  "numMasks = 8"

function maskLoop ::
  "(qrCodeVersion \<Rightarrow> int \<Rightarrow> bitset \<Rightarrow> bool \<Rightarrow> string + 'sym) \<Rightarrow> ('sym \<Rightarrow> int) \<Rightarrow> ('sym \<Rightarrow> int)
     \<Rightarrow> bitset \<Rightarrow> int \<Rightarrow> 'sym QRCode \<times> int \<Rightarrow> panic + 'sym QRCode \<times> int" where
  "maskLoop buildRegularSymbol numEmptyModules penaltyScore encoded mask' (q, penalty) =
     (if mask' < numMasks
      then (case buildRegularSymbol (version q) mask' encoded (\<not> DisableBorder q) of
              Inl err \<Rightarrow> Inl BuildSymbolFailed
            | Inr s \<Rightarrow>
                if numEmptyModules s \<noteq> 0 then Inl EmptyModulesLeft
                else
                  let p = penaltyScore s
                  in if symbol q = None \<or> p < penalty
                     then maskLoop buildRegularSymbol numEmptyModules penaltyScore encoded
                            (mask' + 1) (q\<lparr>symbol := Some s, mask := mask'\<rparr>, p)
                     else maskLoop buildRegularSymbol numEmptyModules penaltyScore encoded
                            (mask' + 1) (q, penalty))
      else Inr (q, penalty))"
  by pat_completeness auto
termination
  by (relation "measure (\<lambda>(b, n, p, e, m, s). nat (numMasks - m))") auto

declare maskLoop.simps [simp del]

definition encode ::
  "(qrCodeVersion \<Rightarrow> int \<Rightarrow> bitset \<Rightarrow> bool \<Rightarrow> string + 'sym) \<Rightarrow> ('sym \<Rightarrow> int) \<Rightarrow> ('sym \<Rightarrow> int)
     \<Rightarrow> 'sym QRCode \<Rightarrow> panic + 'sym QRCode" where
  "encode buildRegularSymbol numEmptyModules penaltyScore q =
     (let numTerminatorBits = numTerminatorBitsRequired (version q) (Len (data q))
      in case addPadding (addTerminatorBits q numTerminatorBits) of
           Inl p \<Rightarrow> Inl p
         | Inr q' \<Rightarrow>
            (case encodeBlocks q' of
               Inl p \<Rightarrow> Inl p
             | Inr encoded \<Rightarrow>
                (case maskLoop buildRegularSymbol numEmptyModules penaltyScore encoded 0 (q', 0) of
                   Inl p \<Rightarrow> Inl p
                 | Inr (q'', penalty) \<Rightarrow> Inr q'')))"

text \<open>
  \<^verbatim>\<open>New\<close>.  The data encoder (\<^verbatim>\<open>newDataEncoder(t).encode\<close>) is not among the sources and
  is a parameter, as is the version chooser.  \<open>newLoop\<close> is the loop over the three
  encoder types, its state the variables \<^verbatim>\<open>encoder\<close>, \<^verbatim>\<open>encoded\<close>, \<^verbatim>\<open>chosenVersion\<close> and
  \<^verbatim>\<open>err\<close>; \<^verbatim>\<open>continue\<close> goes on with the rest of the list and \<^verbatim>\<open>break\<close> returns the state.
\<close>

fun newLoop ::
  "(dataEncoderType \<Rightarrow> string \<Rightarrow> error + bitset)
     \<Rightarrow> (RecoveryLevel \<Rightarrow> dataEncoderType \<Rightarrow> int \<Rightarrow> qrCodeVersion option)
     \<Rightarrow> string \<Rightarrow> RecoveryLevel \<Rightarrow> dataEncoderType list
     \<Rightarrow> dataEncoderType option \<times> bitset option \<times> qrCodeVersion option \<times> error option
     \<Rightarrow> dataEncoderType option \<times> bitset option \<times> qrCodeVersion option \<times> error option" where
  "newLoop encodeData chooseVersion content level' [] st = st"
| "newLoop encodeData chooseVersion content level' (t # ts) (encoder', encoded, chosenVersion, err) =
     (case encodeData t content of
        Inl e \<Rightarrow> newLoop encodeData chooseVersion content level' ts (Some t, None, chosenVersion, Some e)
      | Inr bits \<Rightarrow>
         (case chooseVersion level' t (Len bits) of
            Some v \<Rightarrow> (Some t, Some bits, Some v, None)
          | None \<Rightarrow> newLoop encodeData chooseVersion content level' ts (Some t, Some bits, None, None)))"

definition New ::
  "(dataEncoderType \<Rightarrow> string \<Rightarrow> error + bitset)
     \<Rightarrow> (RecoveryLevel \<Rightarrow> dataEncoderType \<Rightarrow> int \<Rightarrow> qrCodeVersion option)
     \<Rightarrow> string \<Rightarrow> RecoveryLevel \<Rightarrow> error + 'sym QRCode" where
  "New encodeData chooseVersion content level' =
     (case newLoop encodeData chooseVersion content level'
             [dataEncoderType1To9, dataEncoderType10To26, dataEncoderType27To40]
             (None, None, None, None) of
        (encoder', encoded, chosenVersion, err) \<Rightarrow>
          (case err of
             Some e \<Rightarrow> Inl e
           | None \<Rightarrow>
              (case chosenVersion of
                 None \<Rightarrow> Inl ContentTooLong
               | Some v \<Rightarrow>
                   Inr \<lparr>Content = content, Level = level', VersionNumber = qrCodeVersion.version v,
                        DisableBorder = False, encoder = the encoder', version = v,
                        data = the encoded, symbol = None, mask = 0\<rparr>)))"


section \<open>The field GF(2^8) of the specification\<close>

text \<open>
  The field is \<open>GF(2)[x]\<close> modulo \<open>x^8 + x^4 + x^3 + x^2 + 1\<close>, a byte holding the eight
  coefficients (bit \<open>k\<close> for \<open>x^k\<close>); the modulus is the number \<open>285 = 0x11D\<close>.  The
  generator \<open>\<alpha>\<close> is the polynomial \<open>x\<close>, the byte 2.  Multiplying by \<open>\<alpha>\<close> shifts the
  coefficients up by one place and, when a term \<open>x^8\<close> appears, subtracts the modulus.
  This definition uses neither table.
\<close>

definition times_alpha :: "nat \<Rightarrow> nat" where
  "times_alpha v = (if 2 * v < 256 then 2 * v else (2 * v) XOR 285)"

definition alpha_pow :: "nat \<Rightarrow> nat" where
  "alpha_pow i = (times_alpha ^^ i) 1"

text \<open>
  Three passes over the tables, each a recursion on the list, so that the simplifier
  can run them: the exponent table is the chain of powers, the logarithm table undoes
  the exponent table, and the exponent table undoes the logarithm table.
\<close>

fun pow_chain :: "nat \<Rightarrow> gfElement list \<Rightarrow> bool" where
  "pow_chain v [] = True"
| "pow_chain v (x # xs) = (unat x = v \<and> pow_chain (times_alpha v) xs)"

fun log_chain :: "int \<Rightarrow> gfElement list \<Rightarrow> bool" where
  "log_chain k [] = True"
| "log_chain k (x # xs) = (gfLogTable ! unat x = k \<and> log_chain (k + 1) xs)"

fun exp_chain :: "nat \<Rightarrow> int list \<Rightarrow> bool" where
  "exp_chain v [] = True"
| "exp_chain v (l # ls) =
     (0 \<le> l \<and> l < 255 \<and> unat (gfExpTable ! nat l) = v \<and> exp_chain (Suc v) ls)"

text \<open>
  Multiplication by \<open>\<alpha>\<close> once more, on bytes: shift left by one place, dropping the
  coefficient of \<open>x^8\<close>, and add \<open>x^4 + x^3 + x^2 + 1\<close> (the byte 29) when that coefficient
  was set.  \<open>mulx_chain\<close> says that every entry of a list is the entry before it times \<open>\<alpha>\<close>.
\<close>

definition mulx :: "gfElement \<Rightarrow> gfElement" where
  "mulx w = push_bit 1 w XOR (if bit w 7 then 29 else 0)"

fun mulx_chain :: "gfElement list \<Rightarrow> bool" where
  "mulx_chain (x # y # xs) = (y = mulx x \<and> mulx_chain (y # xs))"
| "mulx_chain xs = True"

section \<open>Reed-Solomon codes, padding and interleaving of the specification\<close>

text \<open>The coefficient of \<open>x^i\<close> in a polynomial; zero beyond its terms.\<close>

definition coeff :: "gfPoly \<Rightarrow> nat \<Rightarrow> gfElement" where
  "coeff p i = (if i < length p then p ! i else 0)"

text \<open>
  The generator polynomial of the specification: the product over \<open>i = 0, \<dots>, n - 1\<close> of
  \<open>x + \<alpha>^i\<close>, with \<open>\<alpha>^i\<close> computed in the field and not read from the table.
\<close>

definition generatorProduct :: "nat \<Rightarrow> gfPoly" where
  "generatorProduct n = foldl gfPolyMultiply [1] (map (\<lambda>i. [of_nat (alpha_pow i), 1]) [0..<n])"

text \<open>
  The error correction bytes of the specification for a block of bits: the remainder
  of \<open>M(x) \<cdot> x^n\<close> divided by the generator, as \<open>n\<close> bytes, where \<open>M\<close> has the block's bytes
  as coefficients, the first byte on the highest degree.
\<close>

definition ecBytes :: "bitset \<Rightarrow> nat \<Rightarrow> gfElement list" where
  "ecBytes bits n =
     polyData
       (gfPolyRemainder
          (gfPolyMultiply (rev (toBytes bits)) (replicate n 0 @ [1]))
          (generatorProduct n))
       (int n)"

text \<open>
  Interleaving as the specification words it: for each byte column \<open>c = 0, 1, \<dots>\<close> and
  each block in block-index order, the block's \<open>c\<close>-th byte when the block has one.  A
  block is given with its number of bytes.
\<close>

definition codeword :: "bitset \<Rightarrow> nat \<Rightarrow> bitset" where
  "codeword bits c = take 8 (drop (8 * c) bits)"

fun maxCount :: "(nat \<times> bitset) list \<Rightarrow> nat" where
  "maxCount [] = 0"
| "maxCount ((n, bits) # bl) = max n (maxCount bl)"

definition column :: "(nat \<times> bitset) list \<Rightarrow> nat \<Rightarrow> bitset" where
  "column bl c = concat (map (\<lambda>(n, bits). if c < n then codeword bits c else []) bl)"

definition interleaveColumns :: "(nat \<times> bitset) list \<Rightarrow> bitset" where
  "interleaveColumns bl = concat (map (column bl) [0..<maxCount bl])"

text \<open>
  The block layout of a version, walking the groups in order: one pair (data
  codewords, error correction codewords) per block.  The payload is cut into the blocks'
  data, and the output is the interleaved data, the interleaved error correction bytes
  and the remainder bits.
\<close>

definition blockLayout :: "qrCodeVersion \<Rightarrow> (nat \<times> nat) list" where
  "blockLayout v =
     concat (map (\<lambda>b. replicate (nat (numBlocks b))
                          (nat (numDataCodewords b), nat (numCodewords b - numDataCodewords b)))
                 (block v))"

fun splitPayload :: "bitset \<Rightarrow> (nat \<times> nat) list \<Rightarrow> (nat \<times> nat \<times> bitset) list" where
  "splitPayload d [] = []"
| "splitPayload d ((k, e) # rest) = (k, e, take (8 * k) d) # splitPayload (drop (8 * k) d) rest"

definition interleavedBlocks :: "qrCodeVersion \<Rightarrow> bitset \<Rightarrow> bitset" where
  "interleavedBlocks v payload =
     (let bl = splitPayload payload (blockLayout v)
      in interleaveColumns (map (\<lambda>(k, e, d). (k, d)) bl)
         @ interleaveColumns (map (\<lambda>(k, e, d). (e, concat (map bitsOfByte (ecBytes d e)))) bl)
         @ replicate (nat (numRemainderBits v)) False)"

text \<open>
  The pad codewords of the specification: \<open>k\<close> codewords, \<open>11101100\<close> and \<open>00010001\<close> in
  turn, starting with the first when \<open>j\<close> is even.
\<close>

fun padCodewords :: "nat \<Rightarrow> nat \<Rightarrow> bitset" where
  "padCodewords j 0 = []"
| "padCodewords j (Suc k) =
     (if even j then [True, True, True, False, True, True, False, False]
      else [False, False, False, True, False, False, False, True]) @ padCodewords (Suc j) k"

text \<open>
  Fitting a band: the band's encoder returns a stream, and the chooser finds a version
  of the band for its length.  \<open>newQRCode\<close> is the value \<^verbatim>\<open>New\<close> builds on success.
\<close>

definition fitsBand ::
  "(dataEncoderType \<Rightarrow> string \<Rightarrow> error + bitset)
     \<Rightarrow> (RecoveryLevel \<Rightarrow> dataEncoderType \<Rightarrow> int \<Rightarrow> qrCodeVersion option)
     \<Rightarrow> string \<Rightarrow> RecoveryLevel \<Rightarrow> dataEncoderType \<Rightarrow> (bitset \<times> qrCodeVersion) option" where
  "fitsBand encodeData chooseVersion content level' t =
     (case encodeData t content of
        Inl e \<Rightarrow> None
      | Inr bits \<Rightarrow>
         (case chooseVersion level' t (Len bits) of
            None \<Rightarrow> None
          | Some v \<Rightarrow> Some (bits, v)))"

definition newQRCode ::
  "string \<Rightarrow> RecoveryLevel \<Rightarrow> dataEncoderType \<Rightarrow> bitset \<Rightarrow> qrCodeVersion \<Rightarrow> 'sym QRCode" where
  "newQRCode content level' t bits v =
     \<lparr>Content = content, Level = level', VersionNumber = qrCodeVersion.version v,
      DisableBorder = False, encoder = t, version = v, data = bits, symbol = None, mask = 0\<rparr>"

section \<open>Notions used in the statements\<close>

text \<open>
  A block as the first loop nest leaves it, for its numbers of data and error correction
  codewords and its data bits; the layout of a list of groups; and what makes a group
  usable: counts that are not negative, and a number of error correction codewords
  that \<^verbatim>\<open>rsGeneratorPoly\<close> accepts.
\<close>

definition blockOf :: "nat \<times> nat \<times> bitset \<Rightarrow> dataBlock" where
  "blockOf t = (case t of (k, e, d) \<Rightarrow>
     \<lparr>dataBlock.data = Some (d @ concat (map bitsOfByte (ecBytes d e))),
      ecStartOffset = int (8 * k)\<rparr>)"

definition layoutOf :: "block list \<Rightarrow> (nat \<times> nat) list" where
  "layoutOf gs =
     concat (map (\<lambda>b. replicate (nat (numBlocks b))
                          (nat (numDataCodewords b), nat (numCodewords b - numDataCodewords b)))
                 gs)"

definition totalBits :: "(nat \<times> nat) list \<Rightarrow> nat" where
  "totalBits l = sum_list (map (\<lambda>(k, e). 8 * k) l)"

definition validGroup :: "block \<Rightarrow> bool" where
  "validGroup b \<longleftrightarrow> 0 \<le> numBlocks b \<and> 0 \<le> numDataCodewords b
     \<and> 2 \<le> numCodewords b - numDataCodewords b \<and> numCodewords b - numDataCodewords b \<le> 256"

text \<open>
  The blocks of a symbol seen as data codewords and as error correction codewords, and
  blocks whose data has exactly the announced number of codewords.
\<close>

definition dataView :: "(nat \<times> nat \<times> bitset) list \<Rightarrow> (nat \<times> bitset) list" where
  "dataView ts = map (\<lambda>(k, e, d). (k, d)) ts"

definition ecView :: "(nat \<times> nat \<times> bitset) list \<Rightarrow> (nat \<times> bitset) list" where
  "ecView ts = map (\<lambda>(k, e, d). (e, concat (map bitsOfByte (ecBytes d e)))) ts"

definition exactBlocks :: "(nat \<times> nat \<times> bitset) list \<Rightarrow> bool" where
  "exactBlocks ts \<longleftrightarrow> (\<forall>(k, e, d)\<in>set ts. length d = 8 * k)"

text \<open>
  \<open>selected score m c\<close>: among the masks below \<open>m\<close>, mask \<open>c\<close> has the least score and is
  the first to have it.
\<close>

definition selected :: "(int \<Rightarrow> int) \<Rightarrow> int \<Rightarrow> int \<Rightarrow> bool" where
  "selected score m c \<longleftrightarrow>
     0 \<le> c \<and> c < m \<and> (\<forall>k\<in>{0..<m}. score c \<le> score k) \<and> (\<forall>k\<in>{0..<c}. score c < score k)"

section \<open>Facts about the tables\<close>

lemma length_gfExpTable: "length gfExpTable = 256"
  by (simp add: gfExpTable_def)

lemma length_gfLogTable: "length gfLogTable = 256"
  by (simp add: gfLogTable_def)

lemma pow_chain_gfExpTable: "pow_chain 1 gfExpTable"
  unfolding gfExpTable_def by (simp add: times_alpha_def)

lemma log_chain_gfExpTable: "log_chain 0 (butlast gfExpTable)"
  unfolding gfExpTable_def by (simp add: gfLogTable_def)

lemma exp_chain_gfLogTable: "exp_chain 1 (tl gfLogTable)"
  unfolding gfLogTable_def by (simp add: gfExpTable_def)

lemma pow_chain_nth:
  "pow_chain v xs \<Longrightarrow> i < length xs \<Longrightarrow> unat (xs ! i) = (times_alpha ^^ i) v"
proof (induction xs arbitrary: v i)
  case Nil
  then show ?case by simp
next
  case (Cons x xs)
  show ?case
  proof (cases i)
    case 0
    with Cons.prems show ?thesis by simp
  next
    case (Suc j)
    with Cons.prems have "unat (xs ! j) = (times_alpha ^^ j) (times_alpha v)"
      by (intro Cons.IH) simp_all
    with Suc show ?thesis by (simp add: funpow_swap1)
  qed
qed

lemma log_chain_nth:
  "log_chain k xs \<Longrightarrow> i < length xs \<Longrightarrow> gfLogTable ! unat (xs ! i) = k + int i"
proof (induction xs arbitrary: k i)
  case Nil
  then show ?case by simp
next
  case (Cons x xs)
  show ?case
  proof (cases i)
    case 0
    with Cons.prems show ?thesis by simp
  next
    case (Suc j)
    with Cons.prems have "gfLogTable ! unat (xs ! j) = (k + 1) + int j"
      by (intro Cons.IH) simp_all
    with Suc show ?thesis by simp
  qed
qed

lemma exp_chain_nth:
  "exp_chain v ls \<Longrightarrow> i < length ls \<Longrightarrow>
     0 \<le> ls ! i \<and> ls ! i < 255 \<and> unat (gfExpTable ! nat (ls ! i)) = v + i"
proof (induction ls arbitrary: v i)
  case Nil
  then show ?case by simp
next
  case (Cons l ls)
  show ?case
  proof (cases i)
    case 0
    with Cons.prems show ?thesis by simp
  next
    case (Suc j)
    with Cons.prems
    have "0 \<le> ls ! j \<and> ls ! j < 255 \<and> unat (gfExpTable ! nat (ls ! j)) = Suc v + j"
      by (intro Cons.IH) simp_all
    with Suc show ?thesis by simp
  qed
qed

lemma gfExpTable_is_alpha_pow: "i < 256 \<Longrightarrow> unat (gfExpTable ! i) = alpha_pow i"
  using pow_chain_nth [OF pow_chain_gfExpTable, of i]
  by (simp add: length_gfExpTable alpha_pow_def)

lemma gfLogTable_of_exp: "i < 255 \<Longrightarrow> gfLogTable ! unat (gfExpTable ! i) = int i"
  using log_chain_nth [OF log_chain_gfExpTable, of i]
  by (simp add: length_gfExpTable nth_butlast)

lemma unat_gfElement_range: "v \<noteq> 0 \<Longrightarrow> 0 < unat v \<and> unat v < 256" for v :: gfElement
  using unsigned_less [of v, where ?'a = nat] by (simp add: unat_gt_0)

lemma gfLogTable_range:
  fixes v :: gfElement
  assumes "v \<noteq> 0"
  shows "0 \<le> gfLogTable ! unat v \<and> gfLogTable ! unat v < 255
         \<and> unat (gfExpTable ! nat (gfLogTable ! unat v)) = unat v"
proof -
  from assms have r: "0 < unat v" "unat v < 256"
    using unat_gfElement_range by blast+
  then have "unat v - 1 < length (tl gfLogTable)"
    by (simp add: length_gfLogTable)
  from exp_chain_nth [OF exp_chain_gfLogTable this]
  have "0 \<le> tl gfLogTable ! (unat v - 1) \<and> tl gfLogTable ! (unat v - 1) < 255
        \<and> unat (gfExpTable ! nat (tl gfLogTable ! (unat v - 1))) = 1 + (unat v - 1)" .
  moreover from r have "tl gfLogTable ! (unat v - 1) = gfLogTable ! Suc (unat v - 1)"
    by (intro nth_tl) (simp add: length_gfLogTable)
  moreover from r have "Suc (unat v - 1) = unat v" by simp
  ultimately show ?thesis by simp
qed

text \<open>
  The index that \<^verbatim>\<open>gfMultiply\<close> computes for \<^verbatim>\<open>gfExpTable\<close> is inside the table, and so is
  the one of \<^verbatim>\<open>gfInverse\<close>: neither function can panic on an index.
\<close>

lemma go_rem_nonneg: "0 \<le> a \<Longrightarrow> 0 < b \<Longrightarrow> go_rem a b = a mod b"
  by (simp add: go_rem_def sgn_if minus_mult_div_eq_mod algebra_simps)

lemma gfMultiply_index_in_range:
  fixes a b :: gfElement
  assumes "a \<noteq> 0" "b \<noteq> 0"
  shows "0 \<le> go_rem (gfLogTable ! unat a + gfLogTable ! unat b) 255
         \<and> go_rem (gfLogTable ! unat a + gfLogTable ! unat b) 255 < 255"
proof -
  from gfLogTable_range [OF assms(1)] gfLogTable_range [OF assms(2)]
  have "0 \<le> gfLogTable ! unat a + gfLogTable ! unat b" by simp
  then show ?thesis by (simp add: go_rem_nonneg)
qed

lemma gfInverse_index_in_range:
  fixes a :: gfElement
  assumes "a \<noteq> 0"
  shows "0 < 255 - gfLogTable ! unat a \<and> 255 - gfLogTable ! unat a < 256"
  using gfLogTable_range [OF assms] by simp

section \<open>Facts about the polynomials and the encoder\<close>

lemma gfExpTable_gfLogTable: "x \<noteq> 0 \<Longrightarrow> gfExpTable ! nat (gfLogTable ! unat x) = x"
  using gfLogTable_range [of x] by (simp add: word_unat_eq_iff)

lemma gfLogTable_one: "gfLogTable ! Suc 0 = 0"
  by (simp add: gfLogTable_def)

lemma gfMultiply_zero_left: "gfMultiply 0 x = 0"
  by (simp add: gfMultiply_def gfZero_def)

lemma gfMultiply_zero_right: "gfMultiply x 0 = 0"
  by (simp add: gfMultiply_def gfZero_def)

lemma gfMultiply_one_left: "gfMultiply 1 x = x"
proof (cases "x = 0")
  case True
  then show ?thesis by (simp add: gfMultiply_zero_right)
next
  case False
  from gfLogTable_range [OF False]
  have "go_rem (0 + gfLogTable ! unat x) 255 = gfLogTable ! unat x"
    by (simp add: go_rem_nonneg)
  with False show ?thesis
    by (simp add: gfMultiply_def gfZero_def gfLogTable_one gfExpTable_gfLogTable)
qed

lemma gfMultiply_one_right: "gfMultiply x 1 = x"
proof (cases "x = 0")
  case True
  then show ?thesis by (simp add: gfMultiply_zero_left)
next
  case False
  from gfLogTable_range [OF False]
  have "go_rem (gfLogTable ! unat x + 0) 255 = gfLogTable ! unat x"
    by (simp add: go_rem_nonneg)
  with False show ?thesis
    by (simp add: gfMultiply_def gfZero_def gfLogTable_one gfExpTable_gfLogTable)
qed

lemma toBytes_example: "toBytes [False, False, False, False, False, False, False, True] = [1]"
  by (simp add: byteOfBits_def)

lemma generatorProduct_2: "generatorProduct 2 = [2, 3, 1]"
  by (simp add: generatorProduct_def numeral_2_eq_2 alpha_pow_def times_alpha_def
      gfMultiply_one_left gfAdd_def)

lemma ecBytes_example:
  "ecBytes [False, False, False, False, False, False, False, True] 2 = [3, 2]"
  unfolding ecBytes_def toBytes_example generatorProduct_2
  by (simp add: gfPolyRemainder_def polyData_def newGFPolyMonomial_def numeral_2_eq_2
      gfMultiply_one_left gfMultiply_one_right gfMultiply_zero_left gfMultiply_zero_right
      gfAdd_def)

lemma length_gfPolyAdd: "length (gfPolyAdd a b) = max (length a) (length b)"
  by (induction a b rule: gfPolyAdd.induct) auto

lemma last_gfPolyAdd: "length a < length b \<Longrightarrow> last (gfPolyAdd a b) = last b"
proof (induction a b rule: gfPolyAdd.induct)
  case (3 x a y b)
  then have "length a < length b" by simp
  then have "b \<noteq> []" by auto
  moreover from this have "gfPolyAdd a b \<noteq> []"
    using length_gfPolyAdd [of a b] by (metis length_0_conv max_nat.eq_neutr_iff)
  ultimately show ?case using 3 by simp
qed auto

lemma gfPolyMultiply_Cons:
  "a \<noteq> [] \<Longrightarrow> b \<noteq> [] \<Longrightarrow>
   gfPolyMultiply (x # a) b = gfPolyAdd (map (gfMultiply x) b) (0 # gfPolyMultiply a b)"
  by (cases a; cases b) simp_all

lemma gfPolyMultiply_single: "b \<noteq> [] \<Longrightarrow> gfPolyMultiply [x] b = map (gfMultiply x) b"
  by (cases b) simp_all

lemma length_gfPolyMultiply:
  "a \<noteq> [] \<Longrightarrow> b \<noteq> [] \<Longrightarrow> length (gfPolyMultiply a b) = length a + length b - 1"
proof (induction a rule: list_nonempty_induct)
  case (single x)
  then show ?case by (simp add: gfPolyMultiply_single)
next
  case (cons x a)
  then show ?case
    by (simp add: gfPolyMultiply_Cons length_gfPolyAdd)
qed

lemma last_gfPolyMultiply:
  "a \<noteq> [] \<Longrightarrow> b \<noteq> [] \<Longrightarrow> last (gfPolyMultiply a b) = gfMultiply (last a) (last b)"
proof (induction a rule: list_nonempty_induct)
  case (single x)
  then show ?case by (simp add: gfPolyMultiply_single last_map)
next
  case (cons x a)
  have l: "length (gfPolyMultiply a b) = length a + length b - 1"
    using cons by (simp add: length_gfPolyMultiply)
  with cons have ne: "gfPolyMultiply a b \<noteq> []"
    by (cases a; cases b) auto
  from cons have "0 < length a" by simp
  with l have "length b < Suc (length (gfPolyMultiply a b))" by simp
  then have "last (gfPolyAdd (map (gfMultiply x) b) (0 # gfPolyMultiply a b))
        = last (0 # gfPolyMultiply a b)"
    by (intro last_gfPolyAdd) simp
  with ne cons show ?case by (simp add: gfPolyMultiply_Cons)
qed

lemma gfMultiply_one: "gfMultiply 1 1 = 1"
  by (simp add: gfMultiply_def gfZero_def gfLogTable_def gfExpTable_def go_rem_def)

lemma rsGeneratorLoop_eq:
  "0 \<le> i \<Longrightarrow> i \<le> degree \<Longrightarrow> degree \<le> 256 \<Longrightarrow>
   rsGeneratorLoop i degree g
     = Inr (foldl gfPolyMultiply g (map (\<lambda>k. [gfExpTable ! k, 1]) [nat i..<nat degree]))"
proof (induction i degree g rule: rsGeneratorLoop.induct)
  case (1 i degree g)
  show ?case
  proof (cases "i < degree")
    case True
    with "1.prems" have r: "0 \<le> i \<and> i < int (length gfExpTable)"
      by (simp add: length_gfExpTable)
    from True "1.prems" have u: "[nat i..<nat degree] = nat i # [nat (i + 1)..<nat degree]"
      by (simp add: upt_conv_Cons nat_add_distrib)
    have "rsGeneratorLoop i degree g
          = rsGeneratorLoop (i + 1) degree (gfPolyMultiply g [gfExpTable ! nat i, 1])"
      using True r by simp
    also have "\<dots> = Inr (foldl gfPolyMultiply (gfPolyMultiply g [gfExpTable ! nat i, 1])
                       (map (\<lambda>k. [gfExpTable ! k, 1]) [nat (i + 1)..<nat degree]))"
      using "1.IH" [OF True r] True "1.prems" by simp
    finally show ?thesis by (simp add: u del: rsGeneratorLoop.simps)
  next
    case False
    with "1.prems" have "i = degree" by simp
    then show ?thesis by simp
  qed
qed

lemma rsGeneratorLoop_panics:
  "0 \<le> i \<Longrightarrow> i \<le> 256 \<Longrightarrow> 256 < degree \<Longrightarrow> rsGeneratorLoop i degree g = Inl IndexOutOfRange"
proof (induction i degree g rule: rsGeneratorLoop.induct)
  case (1 i degree g)
  show ?case
  proof (cases "i < 256")
    case True
    with "1.prems" have c: "i < degree" and r: "0 \<le> i \<and> i < int (length gfExpTable)"
      by (simp_all add: length_gfExpTable)
    have "rsGeneratorLoop i degree g
          = rsGeneratorLoop (i + 1) degree (gfPolyMultiply g [gfExpTable ! nat i, 1])"
      using c r by simp
    also have "\<dots> = Inl IndexOutOfRange"
      using "1.IH" [OF c r] True "1.prems" by simp
    finally show ?thesis .
  next
    case False
    with "1.prems" have "i = 256" by simp
    with "1.prems" show ?thesis by (simp add: length_gfExpTable)
  qed
qed

lemma gfExpTable_of_alpha_pow: "k < 256 \<Longrightarrow> gfExpTable ! k = of_nat (alpha_pow k)"
proof -
  assume "k < 256"
  then have "unat (gfExpTable ! k) = alpha_pow k" by (rule gfExpTable_is_alpha_pow)
  then have "of_nat (unat (gfExpTable ! k)) = (of_nat (alpha_pow k) :: gfElement)" by simp
  then show ?thesis by simp
qed

lemma generator_factors:
  "n \<le> 256 \<Longrightarrow> map (\<lambda>k. [gfExpTable ! k, 1]) [0..<n] = map (\<lambda>i. [of_nat (alpha_pow i), 1]) [0..<n]"
  by (simp add: gfExpTable_of_alpha_pow)

lemma generatorProduct_shape:
  "length (generatorProduct n) = n + 1 \<and> last (generatorProduct n) = 1"
proof (induction n)
  case 0
  then show ?case by (simp add: generatorProduct_def)
next
  case (Suc n)
  let ?f = "[of_nat (alpha_pow n), 1] :: gfPoly"
  have step: "generatorProduct (Suc n) = gfPolyMultiply (generatorProduct n) ?f"
    by (simp add: generatorProduct_def)
  from Suc have ne: "generatorProduct n \<noteq> []" by auto
  have "length (generatorProduct (Suc n)) = Suc n + 1"
    unfolding step using length_gfPolyMultiply [OF ne, of ?f] Suc by simp
  moreover have "last (generatorProduct (Suc n)) = 1"
    unfolding step using last_gfPolyMultiply [OF ne, of ?f] Suc by (simp add: gfMultiply_one)
  ultimately show ?case by simp
qed

lemma rsGeneratorPoly_eq:
  assumes "2 \<le> degree" "degree \<le> 256"
  shows "rsGeneratorPoly degree = Inr (generatorProduct (nat degree))"
proof -
  from assms have n: "nat degree \<le> 256" by simp
  from rsGeneratorLoop_eq [of 0 degree "[1]"] assms
  have "rsGeneratorPoly degree
        = Inr (foldl gfPolyMultiply [1] (map (\<lambda>k. [gfExpTable ! k, 1]) [0..<nat degree]))"
    by (simp add: rsGeneratorPoly_def del: rsGeneratorLoop.simps)
  then show ?thesis
    unfolding generatorProduct_def generator_factors [OF n] .
qed

lemma rsGeneratorPoly_above: "256 < degree \<Longrightarrow> rsGeneratorPoly degree = Inl IndexOutOfRange"
  using rsGeneratorLoop_panics [of 0 degree "[1]"] by (simp add: rsGeneratorPoly_def)

lemma length_polyData: "0 \<le> n \<Longrightarrow> length (polyData p n) = nat n"
  by (auto simp: polyData_def)

lemma length_bitsOfByte: "length (bitsOfByte v) = 8"
  by (simp add: bitsOfByte_def)

lemma length_concat_bitsOfByte: "length (concat (map bitsOfByte bs)) = 8 * length bs"
  by (induction bs) (simp_all add: length_bitsOfByte)

lemma length_ecBytes: "length (ecBytes bits n) = n"
  by (simp add: ecBytes_def length_polyData)

lemma Encode_eq:
  assumes "2 \<le> numECBytes" "numECBytes \<le> 256"
  shows "Encode bits numECBytes = Inr (bits @ concat (map bitsOfByte (ecBytes bits (nat numECBytes))))"
proof -
  from assms have g: "rsGeneratorPoly numECBytes = Inr (generatorProduct (nat numECBytes))"
    using rsGeneratorPoly_eq by simp
  from assms show ?thesis
    by (simp add: Encode_def g AppendBytes_def Clone_def ecBytes_def newGFPolyFromData_def
        newGFPolyMonomial_def gfOne_def)
qed

lemma hd_toBytes: "bits \<noteq> [] \<Longrightarrow> hd (toBytes bits) = byteOfBits (take 8 bits)"
  by (cases bits) (simp_all add: numeral_eq_Suc)

lemma EncodeAt_Encode:
  "a < length h \<Longrightarrow>
   EncodeAt h a numECBytes =
     (case Encode (h ! a) numECBytes of
        Inl p \<Rightarrow> (Inl p, h)
      | Inr result \<Rightarrow> (Inr (length h), h @ [result]))"
  by (simp add: EncodeAt_def Encode_def CloneAt_def AppendBytesAt_def Let_def
      split: sum.splits)

section \<open>The encoder's remainder is the remainder\<close>

text \<open>
  \<^verbatim>\<open>gfMultiply\<close> by a nonzero \<open>a\<close> is multiplication by \<open>\<alpha>\<close> repeated \<open>log a\<close> times, so it
  distributes over addition.  With that, each step of the long division keeps the
  dividend equal to a multiple of the divisor plus the residue.
\<close>

lemma mulx_chain_gfExpTable: "mulx_chain gfExpTable"
  unfolding gfExpTable_def by (simp add: mulx_def)

lemma mulx_xor: "mulx (u XOR v) = mulx u XOR mulx v"
  by (simp add: mulx_def push_bit_xor bit_xor_iff ac_simps)

lemma mulx_zero: "mulx 0 = 0"
  by (simp add: mulx_def)

lemma mulx_chain_nth:
  "mulx_chain xs \<Longrightarrow> Suc i < length xs \<Longrightarrow> xs ! Suc i = mulx (xs ! i)"
proof (induction xs arbitrary: i rule: mulx_chain.induct)
  case (1 x y xs)
  show ?case
  proof (cases i)
    case 0
    with "1.prems" show ?thesis by simp
  next
    case (Suc j)
    from "1.prems"(1) have c: "mulx_chain (y # xs)"
      unfolding mulx_chain.simps(1) by (rule conjunct2)
    from "1.prems" Suc have "Suc j < length (y # xs)" by simp
    from "1.IH" [OF c this] Suc show ?thesis by simp
  qed
qed simp_all

lemma gfExpTable_Suc: "i < 255 \<Longrightarrow> gfExpTable ! Suc i = mulx (gfExpTable ! i)"
  using mulx_chain_nth [OF mulx_chain_gfExpTable, of i] by (simp add: length_gfExpTable)

lemma gfExpTable_wrap: "m < 255 \<Longrightarrow> gfExpTable ! Suc m = gfExpTable ! (Suc m mod 255)"
proof (cases "Suc m < 255")
  case True
  then show ?thesis by simp
next
  case False
  assume "m < 255"
  with False have "m = 254" by simp
  then show ?thesis by (simp add: gfExpTable_def)
qed

lemma funpow_mulx_gfExpTable:
  "j < 255 \<Longrightarrow> (mulx ^^ k) (gfExpTable ! j) = gfExpTable ! ((j + k) mod 255)"
proof (induction k)
  case 0
  then show ?case by simp
next
  case (Suc k)
  have m: "(j + k) mod 255 < 255" by simp
  have "(mulx ^^ Suc k) (gfExpTable ! j) = mulx (gfExpTable ! ((j + k) mod 255))"
    using Suc by simp
  also have "\<dots> = gfExpTable ! Suc ((j + k) mod 255)"
    using gfExpTable_Suc [OF m] by simp
  also have "\<dots> = gfExpTable ! (Suc ((j + k) mod 255) mod 255)"
    by (rule gfExpTable_wrap [OF m])
  also have "Suc ((j + k) mod 255) mod 255 = (j + Suc k) mod 255"
    by (simp add: mod_Suc_eq)
  finally show ?case .
qed

lemma funpow_mulx_zero: "(mulx ^^ k) 0 = 0"
  by (induction k) (simp_all add: mulx_zero)

lemma funpow_mulx_xor: "(mulx ^^ k) (u XOR v) = (mulx ^^ k) u XOR (mulx ^^ k) v"
  by (induction k) (simp_all add: mulx_xor)

lemma gfMultiply_funpow:
  assumes "a \<noteq> 0"
  shows "gfMultiply a b = (mulx ^^ nat (gfLogTable ! unat a)) b"
proof (cases "b = 0")
  case True
  then show ?thesis by (simp add: gfMultiply_zero_right funpow_mulx_zero)
next
  case False
  note ra = gfLogTable_range [OF assms] and rb = gfLogTable_range [OF False]
  define la where "la = nat (gfLogTable ! unat a)"
  define lb where "lb = nat (gfLogTable ! unat b)"
  from ra rb have l: "gfLogTable ! unat a = int la" "gfLogTable ! unat b = int lb" "lb < 255"
    unfolding la_def lb_def by linarith+
  have b: "gfExpTable ! lb = b"
    using gfExpTable_gfLogTable [OF False] by (simp add: lb_def)
  have "go_rem (int la + int lb) 255 = int ((lb + la) mod 255)"
    by (simp add: go_rem_nonneg zmod_int add.commute)
  then have "gfMultiply a b = gfExpTable ! ((lb + la) mod 255)"
    using assms False by (simp add: gfMultiply_def gfZero_def l)
  also have "\<dots> = (mulx ^^ la) (gfExpTable ! lb)"
    by (rule funpow_mulx_gfExpTable [OF l(3), symmetric])
  finally show ?thesis by (simp add: b la_def)
qed

lemma gfMultiply_xor_right: "gfMultiply a (u XOR v) = gfMultiply a u XOR gfMultiply a v"
proof (cases "a = 0")
  case True
  then show ?thesis by (simp add: gfMultiply_zero_left)
next
  case False
  then show ?thesis by (simp add: gfMultiply_funpow funpow_mulx_xor)
qed

lemma coeff_Nil: "coeff [] i = 0"
  by (simp add: coeff_def)

lemma coeff_Cons: "coeff (x # p) i = (case i of 0 \<Rightarrow> x | Suc j \<Rightarrow> coeff p j)"
  by (simp add: coeff_def split: nat.splits)

lemma coeff_gfPolyAdd: "coeff (gfPolyAdd p q) i = coeff p i XOR coeff q i"
proof (induction p q arbitrary: i rule: gfPolyAdd.induct)
  case (1 b)
  then show ?case by (simp add: coeff_Nil)
next
  case (2 v va)
  then show ?case by (simp add: coeff_Nil)
next
  case (3 x a y b)
  then show ?case by (cases i) (simp_all add: coeff_Cons gfAdd_def)
qed

lemma coeff_map_gfMultiply: "coeff (map (gfMultiply x) b) i = gfMultiply x (coeff b i)"
  by (simp add: coeff_def gfMultiply_zero_right)

lemma coeff_gfPolyMultiply_Cons:
  "coeff (gfPolyMultiply (x # a) b) i
     = gfMultiply x (coeff b i) XOR (case i of 0 \<Rightarrow> 0 | Suc j \<Rightarrow> coeff (gfPolyMultiply a b) j)"
proof (cases "b = []")
  case True
  then show ?thesis
    by (cases a) (simp_all add: coeff_Nil gfMultiply_zero_right split: nat.splits)
next
  case b: False
  show ?thesis
  proof (cases "a = []")
    case True
    with b show ?thesis
      by (simp add: gfPolyMultiply_single coeff_map_gfMultiply coeff_Nil split: nat.splits)
  next
    case False
    with b show ?thesis
      by (simp add: gfPolyMultiply_Cons coeff_gfPolyAdd coeff_map_gfMultiply coeff_Cons)
  qed
qed

lemma coeff_gfPolyMultiply_Nil: "coeff (gfPolyMultiply [] b) i = 0"
  by (simp add: coeff_Nil)

lemma coeff_mult_add_right:
  "coeff (gfPolyMultiply a (gfPolyAdd p q)) i
     = coeff (gfPolyMultiply a p) i XOR coeff (gfPolyMultiply a q) i"
proof (induction a arbitrary: i)
  case Nil
  then show ?case by (simp add: coeff_Nil)
next
  case (Cons x a)
  show ?case
    unfolding coeff_gfPolyMultiply_Cons coeff_gfPolyAdd gfMultiply_xor_right
    by (cases i) (simp_all add: Cons.IH ac_simps)
qed

lemma coeff_monomial: "coeff (replicate d 0 @ [c]) i = (if i = d then c else 0)"
  by (auto simp: coeff_def nth_append)

lemma coeff_mult_monomial:
  "coeff (gfPolyMultiply a (replicate d 0 @ [c])) i
     = (if d \<le> i then gfMultiply (coeff a (i - d)) c else 0)"
proof (induction a arbitrary: i)
  case Nil
  then show ?case by (simp add: coeff_Nil gfMultiply_zero_left)
next
  case (Cons x a)
  show ?case
  proof (cases i)
    case 0
    then show ?thesis
      by (simp add: coeff_gfPolyMultiply_Cons coeff_monomial coeff_Cons gfMultiply_zero_right)
  next
    case (Suc j)
    show ?thesis
    proof (cases "d \<le> j")
      case True
      then have "Suc j - d = Suc (j - d)" by simp
      with True Suc show ?thesis
        by (simp add: coeff_gfPolyMultiply_Cons coeff_monomial coeff_Cons Cons.IH
            gfMultiply_zero_right)
    next
      case False
      with Suc show ?thesis
        by (auto simp: coeff_gfPolyMultiply_Cons coeff_monomial coeff_Cons Cons.IH
            gfMultiply_zero_right not_le less_Suc_eq_le)
    qed
  qed
qed

lemma last_gfPolyAdd_same:
  "length p = length q \<Longrightarrow> p \<noteq> [] \<Longrightarrow> last (gfPolyAdd p q) = gfAdd (last p) (last q)"
proof (induction p q rule: gfPolyAdd.induct)
  case (3 x a y b)
  then show ?case
    by (cases a; cases b) simp_all
qed simp_all

lemma coeff_butlast:
  assumes "p \<noteq> []" "last p = 0"
  shows "coeff (butlast p) i = coeff p i"
proof (cases "i < length p - 1")
  case True
  then have "i < length p" by simp
  with True show ?thesis by (simp add: coeff_def nth_butlast)
next
  case False
  show ?thesis
  proof (cases "i = length p - 1")
    case True
    with assms show ?thesis by (simp add: coeff_def last_conv_nth)
  next
    case ne: False
    with False have "\<not> i < length p" "\<not> i < length (butlast p)" by simp_all
    then show ?thesis by (simp add: coeff_def)
  qed
qed

lemma remainderSteps_divides:
  assumes G: "G \<noteq> []" "last G = 1"
  shows "t + length G \<le> Suc (length r) \<Longrightarrow>
     length (remainderSteps t r G) = length r - t
     \<and> (\<exists>Q. \<forall>i. coeff r i = coeff (gfPolyMultiply G Q) i XOR coeff (remainderSteps t r G) i)"
proof (induction t arbitrary: r)
  case 0
  have "\<forall>i. coeff r i = coeff (gfPolyMultiply G []) i XOR coeff r i"
    using G by (cases G) (simp_all add: coeff_Nil)
  then show ?case by auto
next
  case (Suc t)
  define c where "c = last r"
  define d where "d = length r - length G"
  define m where "m = replicate d 0 @ [c]"
  define S where "S = gfPolyMultiply G m"
  define r1 where "r1 = butlast (gfPolyAdd r S)"
  from Suc.prems G have lr: "length G \<le> length r" "r \<noteq> []" by (cases G; auto)+
  have mono: "newGFPolyMonomial (last r) (int (length r) - int (length G)) = m"
    using lr by (simp add: newGFPolyMonomial_def m_def c_def d_def nat_diff_distrib')
  have step: "remainderSteps (Suc t) r G = remainderSteps t r1 G"
    by (simp add: mono r1_def S_def)
  have lS: "length S = length r"
    using G lr by (simp add: S_def length_gfPolyMultiply m_def d_def)
  have "last S = gfMultiply (last G) (last m)"
    unfolding S_def using G by (intro last_gfPolyMultiply) (simp_all add: m_def)
  then have lastS: "last S = c" using G by (simp add: m_def gfMultiply_one_left)
  have len: "length (gfPolyAdd r S) = length r" by (simp add: length_gfPolyAdd lS)
  with lr have ne: "gfPolyAdd r S \<noteq> []" by auto
  have "last (gfPolyAdd r S) = gfAdd (last r) (last S)"
    using lS lr by (intro last_gfPolyAdd_same) simp_all
  then have z: "last (gfPolyAdd r S) = 0" by (simp add: lastS c_def gfAdd_def)
  have c1: "coeff r1 i = coeff r i XOR coeff S i" for i
    unfolding r1_def coeff_butlast [OF ne z] by (rule coeff_gfPolyAdd)
  have l1: "length r1 = length r - 1" by (simp add: r1_def len)
  from Suc.prems lr have "t + length G \<le> Suc (length r1)" by (simp add: l1)
  from Suc.IH [OF this] obtain Q1 where
    lq: "length (remainderSteps t r1 G) = length r1 - t"
    and q: "\<forall>i. coeff r1 i = coeff (gfPolyMultiply G Q1) i XOR coeff (remainderSteps t r1 G) i"
    by blast
  have "coeff r i = coeff (gfPolyMultiply G (gfPolyAdd Q1 m)) i
                    XOR coeff (remainderSteps (Suc t) r G) i" for i
  proof -
    have "coeff r i = coeff r1 i XOR coeff S i"
      unfolding c1 by (simp add: xor.assoc)
    also have "\<dots> = (coeff (gfPolyMultiply G Q1) i XOR coeff (remainderSteps t r1 G) i)
                     XOR coeff (gfPolyMultiply G m) i"
      using q by (simp add: S_def)
    finally show ?thesis
      unfolding step coeff_mult_add_right by (simp add: ac_simps)
  qed
  then have "\<exists>Q. \<forall>i. coeff r i = coeff (gfPolyMultiply G Q) i
                    XOR coeff (remainderSteps (Suc t) r G) i" by blast
  moreover have "length (remainderSteps (Suc t) r G) = length r - Suc t"
    unfolding step lq l1 by simp
  ultimately show ?case by blast
qed

lemma gfPolyRemainder_divides:
  assumes G: "G \<noteq> []" "last G = 1"
  shows "length (gfPolyRemainder A G) < length G
     \<and> (\<exists>Q. \<forall>i. coeff A i = coeff (gfPolyMultiply G Q) i XOR coeff (gfPolyRemainder A G) i)"
proof (cases "length A < length G")
  case True
  have "\<forall>i. coeff A i = coeff (gfPolyMultiply G []) i XOR coeff A i"
    using G by (cases G) (simp_all add: coeff_Nil)
  with True show ?thesis by (auto simp: gfPolyRemainder_def)
next
  case False
  then have "Suc (length A - length G) + length G \<le> Suc (length A)" by simp
  from remainderSteps_divides [OF G this] G False show ?thesis
    by (cases G) (auto simp: gfPolyRemainder_def)
qed

lemma coeff_rev_polyData:
  "length R \<le> n \<Longrightarrow> coeff (rev (polyData R (int n))) i = coeff R i"
  by (auto simp: polyData_def coeff_def nth_append)

lemma ecBytes_is_remainder:
  "\<exists>Q. \<forall>i. (if n \<le> i then coeff (rev (toBytes bits)) (i - n) else 0)
           = coeff (gfPolyMultiply (generatorProduct n) Q) i XOR coeff (rev (ecBytes bits n)) i"
proof -
  let ?G = "generatorProduct n"
  let ?A = "gfPolyMultiply (rev (toBytes bits)) (replicate n 0 @ [1])"
  from generatorProduct_shape [of n] have G: "?G \<noteq> []" "last ?G = 1" "length ?G = n + 1"
    by auto
  from gfPolyRemainder_divides [OF G(1,2), of ?A] obtain Q where
    l: "length (gfPolyRemainder ?A ?G) < length ?G"
    and q: "\<forall>i. coeff ?A i = coeff (gfPolyMultiply ?G Q) i XOR coeff (gfPolyRemainder ?A ?G) i"
    by blast
  from l G(3) have "length (gfPolyRemainder ?A ?G) \<le> n" by simp
  then have r: "coeff (rev (ecBytes bits n)) i = coeff (gfPolyRemainder ?A ?G) i" for i
    unfolding ecBytes_def by (rule coeff_rev_polyData)
  have a: "coeff ?A i = (if n \<le> i then coeff (rev (toBytes bits)) (i - n) else 0)" for i
    by (simp add: coeff_mult_monomial gfMultiply_one_right)
  from q show ?thesis unfolding r a by blast
qed


section \<open>Facts about padding\<close>

lemma length_padCodewords: "length (padCodewords j k) = 8 * k"
  by (induction k arbitrary: j) auto

lemma padLoop_eq:
  "(i = 0 \<and> even j) \<or> (i = 1 \<and> odd j) \<Longrightarrow>
   padLoop n d i = Inr (d @ padCodewords j (nat ((n - Len d) div 8)))"
proof (induction n d i arbitrary: j rule: padLoop.induct)
  case (1 n d i)
  show ?case
  proof (cases "n - Len d \<ge> 8")
    case True
    from "1.prems" have r: "0 \<le> i \<and> i < int (length padding)"
      by (auto simp: padding_def)
    from "1.prems" have p: "padding ! nat i = (if even j then [True, True, True, False, True, True, False, False]
      else [False, False, False, True, False, False, False, True])"
      by (auto simp: padding_def)
    then have l: "Len (Append d (padding ! nat i)) = Len d + 8"
      by (simp add: Len_def Append_def)
    from "1.prems" have nx: "(1 - i = 0 \<and> even (Suc j)) \<or> (1 - i = 1 \<and> odd (Suc j))"
      by auto
    from True have k: "nat ((n - Len d) div 8) = Suc (nat ((n - (Len d + 8)) div 8))"
      by (simp add: Suc_nat_eq_nat_zadd1)
    have "padLoop n d i = padLoop n (Append d (padding ! nat i)) (1 - i)"
      using True r by simp
    also have "\<dots> = Inr (Append d (padding ! nat i) @ padCodewords (Suc j) (nat ((n - Len (Append d (padding ! nat i))) div 8)))"
      using "1.IH" [OF True r nx] .
    finally show ?thesis
      using k l p by (simp add: Append_def del: padLoop.simps)
  next
    case False
    then have "nat ((n - Len d) div 8) = 0" by simp
    with False show ?thesis by simp
  qed
qed

lemma numBitsToPadToCodeword_eq:
  "0 \<le> n \<Longrightarrow> numBitsToPadToCodeword v n = (8 - n mod 8) mod 8"
  by (simp add: numBitsToPadToCodeword_def go_rem_nonneg)

lemma addPadding_data:
  assumes "Len d \<le> n" and "8 dvd n" and "Len d \<noteq> n"
  shows "padLoop n (AppendNumBools d (numBitsToPadToCodeword v (Len d)) False) 0
           = Inr (d @ replicate ((8 - length d mod 8) mod 8) False
                    @ padCodewords 0
                        ((nat n - (length d + (8 - length d mod 8) mod 8)) div 8))
         \<and> int (length (d @ replicate ((8 - length d mod 8) mod 8) False
                    @ padCodewords 0
                        ((nat n - (length d + (8 - length d mod 8) mod 8)) div 8))) = n"
proof -
  define z where "z = (8 - length d mod 8) mod 8"
  define d1 where "d1 = AppendNumBools d (numBitsToPadToCodeword v (Len d)) False"
  have "numBitsToPadToCodeword v (Len d) = int z"
    unfolding z_def by (simp add: numBitsToPadToCodeword_eq Len_def zmod_int of_nat_diff)
  then have d1: "d1 = d @ replicate z False"
    by (simp add: d1_def AppendNumBools_def)
  then have l1: "Len d1 = Len d + int z" by (simp add: Len_def)
  have len1: "length d1 = length d + z" by (simp add: d1)
  have al: "8 dvd length d + z"
  proof -
    have "(length d + z) mod 8 = (length d mod 8 + (8 - length d mod 8) mod 8) mod 8"
      unfolding z_def by (simp add: mod_add_left_eq)
    also have "\<dots> = (length d mod 8 + (8 - length d mod 8)) mod 8"
      by (simp add: mod_add_right_eq)
    also have "\<dots> = 0" by simp
    finally show ?thesis by (simp add: dvd_eq_mod_eq_0)
  qed
  have zl: "z < 8" unfolding z_def by simp
  from assms have lt: "int (length d) < n" by (simp add: Len_def)
  have le: "int (length d + z) \<le> n"
  proof (rule ccontr)
    assume n: "\<not> int (length d + z) \<le> n"
    with lt zl have b: "int (length d) < n" "n < int (length d) + 8"
      by simp_all
    from al obtain a where a: "length d + z = 8 * a" by (auto simp: dvd_def)
    from assms(2) obtain c where c: "n = 8 * c" by (auto simp: dvd_def)
    from b a c zl n show False by auto
  qed
  from al have "8 dvd int (length d + z)" by (metis of_nat_dvd_iff of_nat_numeral)
  with assms(2) have dv: "8 dvd n - int (length d + z)" by (rule dvd_diff)
  define k where "k = nat ((n - int (length d + z)) div 8)"
  from dv le have "n - int (length d + z) = 8 * int k"
    unfolding k_def by auto
  then have k: "n - Len d1 = 8 * int k" by (simp add: Len_def len1)
  have pl: "padLoop n d1 0 = Inr (d1 @ padCodewords 0 (nat ((n - Len d1) div 8)))"
    by (rule padLoop_eq) simp
  have kk: "nat ((n - Len d1) div 8) = k" using k by simp
  have k2: "(nat n - (length d + z)) div 8 = k"
    using k l1 by (simp add: Len_def)
  have "int (length (d1 @ padCodewords 0 k)) = n"
    using k by (simp add: Len_def length_padCodewords)
  with pl kk show ?thesis
    unfolding d1_def [symmetric] z_def [symmetric] k2
    by (simp add: d1)
qed

section \<open>Facts about the block loops\<close>

lemma Substr_nat:
  "a + n \<le> length bits \<Longrightarrow> Substr bits (int a) (int a + int n) = Inr (take n (drop a bits))"
  by (simp add: Substr_def Len_def)

lemma length_splitPayload: "length (splitPayload d l) = length l"
  by (induction d l rule: splitPayload.induct) simp_all

lemma splitPayload_append:
  "splitPayload d (l1 @ l2) = splitPayload d l1 @ splitPayload (drop (totalBits l1) d) l2"
proof (induction d l1 rule: splitPayload.induct)
  case (1 d)
  then show ?case by (simp add: totalBits_def)
next
  case (2 d k e rest)
  then show ?case by (simp add: totalBits_def add.commute)
qed

lemma totalBits_replicate: "totalBits (replicate j (k, e)) = 8 * k * j"
  by (induction j) (simp_all add: totalBits_def)

lemma totalBits_append: "totalBits (l1 @ l2) = totalBits l1 + totalBits l2"
  by (simp add: totalBits_def)

lemma splitGroup_eq:
  assumes k: "numDataCodewords b = int k"
    and e: "numCodewords b - numDataCodewords b = int e" "2 \<le> e" "e \<le> 256"
  shows "I + j \<le> length blocks \<Longrightarrow> En + 8 * k * j \<le> length d \<Longrightarrow>
     splitGroup d b j (blocks, int En, int I)
       = Inr (take I blocks @ map blockOf (splitPayload (drop En d) (replicate j (k, e)))
                @ drop (I + j) blocks,
              int (En + 8 * k * j), int (I + j))"
proof (induction j arbitrary: blocks En I)
  case 0
  then show ?case by simp
next
  case (Suc j)
  let ?sub = "take (8 * k) (drop En d)"
  let ?x = "blockOf (k, e, ?sub)"
  from Suc.prems have sub: "Substr d (int En) (int En + numDataCodewords b * 8) = Inr ?sub"
    using Substr_nat [of En "8 * k" d] by (simp add: k mult.commute)
  from e have enc: "Encode ?sub (numCodewords b - numDataCodewords b)
      = Inr (?sub @ concat (map bitsOfByte (ecBytes ?sub e)))"
    using Encode_eq [of "int e" ?sub] by simp
  from Suc.prems have I: "I < length blocks" by simp
  have step: "splitGroup d b (Suc j) (blocks, int En, int I)
      = splitGroup d b j (blocks[I := ?x], int (En + 8 * k), int (Suc I))"
    by (simp only: splitGroup.simps Let_def sub enc sum.case)
       (simp add: I blockOf_def k add.commute mult.commute)
  from Suc.prems have p: "Suc I + j \<le> length (blocks[I := ?x])"
    "(En + 8 * k) + 8 * k * j \<le> length d" by simp_all
  have t: "take (Suc I) (blocks[I := ?x]) = take I blocks @ [?x]"
    using I by (simp add: take_Suc_conv_app_nth)
  have dr: "drop (Suc I + j) (blocks[I := ?x]) = drop (I + Suc j) blocks"
    by simp
  have dd: "drop (En + 8 * k) d = drop (8 * k) (drop En d)"
    by (simp add: add.commute)
  show ?case
    unfolding step Suc.IH [OF p] t dr dd
    by (simp add: algebra_simps)
qed

lemma layoutOf_Cons:
  "layoutOf (b # gs) = replicate (nat (numBlocks b))
       (nat (numDataCodewords b), nat (numCodewords b - numDataCodewords b)) @ layoutOf gs"
  by (simp add: layoutOf_def)

lemma splitBlocks_eq:
  assumes "\<forall>b\<in>set gs. validGroup b"
  shows "I + length (layoutOf gs) \<le> length blocks \<Longrightarrow> En + totalBits (layoutOf gs) \<le> length d \<Longrightarrow>
     splitBlocks d gs (blocks, int En, int I)
       = Inr (take I blocks @ map blockOf (splitPayload (drop En d) (layoutOf gs))
                @ drop (I + length (layoutOf gs)) blocks,
              int (En + totalBits (layoutOf gs)), int (I + length (layoutOf gs)))"
  using assms
proof (induction gs arbitrary: blocks En I)
  case Nil
  then show ?case by (simp add: layoutOf_def totalBits_def)
next
  case (Cons b gs)
  define k where "k = nat (numDataCodewords b)"
  define e where "e = nat (numCodewords b - numDataCodewords b)"
  define j where "j = nat (numBlocks b)"
  define l1 where "l1 = replicate j (k, e)"
  define l2 where "l2 = layoutOf gs"
  from Cons.prems have v: "validGroup b" and vs: "\<forall>b\<in>set gs. validGroup b" by simp_all
  from v have ke: "numDataCodewords b = int k" "numCodewords b - numDataCodewords b = int e"
    "2 \<le> e" "e \<le> 256"
    unfolding validGroup_def k_def e_def by linarith+
  have lay: "layoutOf (b # gs) = l1 @ l2"
    by (simp add: layoutOf_Cons l1_def l2_def j_def k_def e_def)
  have tb: "totalBits l1 = 8 * k * j" by (simp add: l1_def totalBits_replicate)
  from Cons.prems(1,2) have p1: "I + j \<le> length blocks" "En + 8 * k * j \<le> length d"
    unfolding lay totalBits_append tb by (simp_all add: l1_def)
  define m1 where "m1 = map blockOf (splitPayload (drop En d) l1)"
  have lm1: "length m1 = j" by (simp add: m1_def length_splitPayload l1_def)
  define blocks1 where "blocks1 = take I blocks @ m1 @ drop (I + j) blocks"
  have g: "splitGroup d b (nat (numBlocks b)) (blocks, int En, int I)
      = Inr (blocks1, int (En + 8 * k * j), int (I + j))"
    using splitGroup_eq [OF ke p1] by (simp add: j_def blocks1_def m1_def l1_def)
  have lb1: "length blocks1 = length blocks"
    using p1 by (simp add: blocks1_def lm1)
  from Cons.prems(1,2) have p2: "(I + j) + length (layoutOf gs) \<le> length blocks1"
    "(En + 8 * k * j) + totalBits (layoutOf gs) \<le> length d"
    unfolding lay totalBits_append tb lb1 by (simp_all add: l1_def l2_def)
  have tk: "take (I + j) blocks1 = take I blocks @ m1"
    using p1 by (simp add: blocks1_def lm1)
  have dr: "drop (I + j + length l2) blocks1 = drop (I + length (l1 @ l2)) blocks"
    using p1 by (simp add: blocks1_def lm1 l1_def add.commute add.left_commute)
  have sp: "splitPayload (drop En d) (l1 @ l2)
      = splitPayload (drop En d) l1 @ splitPayload (drop (En + 8 * k * j) d) l2"
    by (simp add: splitPayload_append tb add.commute)
  have "splitBlocks d (b # gs) (blocks, int En, int I)
      = splitBlocks d gs (blocks1, int (En + 8 * k * j), int (I + j))"
    by (simp add: g)
  also have "\<dots> = Inr (take (I + j) blocks1
                @ map blockOf (splitPayload (drop (En + 8 * k * j) d) (layoutOf gs))
                @ drop (I + j + length (layoutOf gs)) blocks1,
              int (En + 8 * k * j + totalBits (layoutOf gs)), int (I + j + length (layoutOf gs)))"
    by (rule Cons.IH [OF p2 vs])
  finally show ?case
    unfolding lay tk l2_def [symmetric] dr sp totalBits_append tb
    by (simp add: m1_def l1_def add.assoc)
qed

lemma maxCount_less: "c < maxCount bl \<longleftrightarrow> (\<exists>(n, bits)\<in>set bl. c < n)"
  by (induction bl rule: maxCount.induct) auto

lemma column_Cons:
  "column ((n, bits) # bl) c = (if c < n then codeword bits c else []) @ column bl c"
  by (simp add: column_def)

lemma column_Nil: "column [] c = []"
  by (simp add: column_def)

lemma codeword_data:
  "length d = 8 * k \<Longrightarrow> c < k \<Longrightarrow> take 8 (drop (8 * c) (d @ ec)) = codeword d c"
  by (simp add: codeword_def)

lemma codeword_ec:
  "length d = 8 * k \<Longrightarrow> take 8 (drop (8 * c + 8 * k) (d @ ec)) = codeword ec c"
  by (simp add: codeword_def)

lemma dataColumn_eq:
  "exactBlocks ts \<Longrightarrow>
   dataColumn (map blockOf ts) (8 * int c) (r, w)
     = Inr (r @ column (dataView ts) c, w \<or> c < maxCount (dataView ts))"
proof (induction ts arbitrary: r w)
  case Nil
  then show ?case by (simp add: dataView_def column_Nil)
next
  case (Cons t ts)
  obtain k e d where t: "t = (k, e, d)" by (cases t)
  from Cons.prems have ex: "exactBlocks ts" and len: "length d = 8 * k"
    by (simp_all add: exactBlocks_def t)
  note IH = Cons.IH [OF ex]
  have v: "dataView (t # ts) = (k, d) # dataView ts" by (simp add: dataView_def t)
  show ?case
  proof (cases "c < k")
    case True
    let ?bits = "d @ concat (map bitsOfByte (ecBytes d e))"
    from True len have "8 * c + 8 \<le> length ?bits" by simp
    from Substr_nat [OF this]
    have sub: "Substr ?bits (8 * int c) (8 * int c + 8) = Inr (codeword d c)"
      using codeword_data [OF len True] by simp
    have st: "dataColumn (map blockOf (t # ts)) (8 * int c) (r, w)
        = dataColumn (map blockOf ts) (8 * int c) (r @ codeword d c, True)"
      using True by (simp add: t blockOf_def sub Append_def)
    show ?thesis unfolding st IH v column_Cons using True by (simp add: less_max_iff_disj)
  next
    case False
    then have st: "dataColumn (map blockOf (t # ts)) (8 * int c) (r, w)
        = dataColumn (map blockOf ts) (8 * int c) (r, w)"
      by (simp add: t blockOf_def)
    show ?thesis unfolding st IH v column_Cons using False by (simp add: less_max_iff_disj)
  qed
qed

lemma length_ecBits: "length (concat (map bitsOfByte (ecBytes d e))) = 8 * e"
  by (simp add: length_concat_bitsOfByte length_ecBytes)

lemma ecColumn_eq:
  "exactBlocks ts \<Longrightarrow>
   ecColumn (map blockOf ts) (8 * int c) (r, w)
     = Inr (r @ column (ecView ts) c, w \<or> c < maxCount (ecView ts))"
proof (induction ts arbitrary: r w)
  case Nil
  then show ?case by (simp add: ecView_def column_Nil)
next
  case (Cons t ts)
  obtain k e d where t: "t = (k, e, d)" by (cases t)
  from Cons.prems have ex: "exactBlocks ts" and len: "length d = 8 * k"
    by (simp_all add: exactBlocks_def t)
  note IH = Cons.IH [OF ex]
  let ?ec = "concat (map bitsOfByte (ecBytes d e))"
  let ?bits = "d @ ?ec"
  have v: "ecView (t # ts) = (e, ?ec) # ecView ts" by (simp add: ecView_def t)
  have lb: "Len ?bits = 8 * int k + 8 * int e" by (simp add: Len_def len length_ecBits)
  show ?case
  proof (cases "c < e")
    case True
    from True len have "(8 * c + 8 * k) + 8 \<le> length ?bits" by (simp add: length_ecBits)
    from Substr_nat [OF this]
    have sub: "Substr ?bits (8 * int c + 8 * int k) (8 * int c + 8 * int k + 8)
        = Inr (codeword ?ec c)"
      using codeword_ec [OF len, of c ?ec] by simp
    have st: "ecColumn (map blockOf (t # ts)) (8 * int c) (r, w)
        = ecColumn (map blockOf ts) (8 * int c) (r @ codeword ?ec c, True)"
      using True by (simp add: t blockOf_def Let_def lb sub Append_def)
    show ?thesis unfolding st IH v column_Cons using True by (simp add: less_max_iff_disj)
  next
    case False
    then have st: "ecColumn (map blockOf (t # ts)) (8 * int c) (r, w)
        = ecColumn (map blockOf ts) (8 * int c) (r, w)"
      by (simp add: t blockOf_def Let_def lb)
    show ?thesis unfolding st IH v column_Cons using False by (simp add: less_max_iff_disj)
  qed
qed

lemma combineData_eq:
  assumes "exactBlocks ts"
  shows "n = maxCount (dataView ts) - c \<Longrightarrow>
     combineData (map blockOf ts) (8 * int c) r
       = Inr (r @ concat (map (column (dataView ts)) [c..<maxCount (dataView ts)]))"
proof (induction n arbitrary: c r)
  case 0
  then have nl: "\<not> c < maxCount (dataView ts)" by simp
  then have "column (dataView ts) c = []"
    by (auto simp: column_def maxCount_less intro!: concat_eq_Nil_conv [THEN iffD2])
  with nl have "dataColumn (map blockOf ts) (8 * int c) (r, False) = Inr (r, False)"
    by (simp add: dataColumn_eq [OF assms])
  with nl show ?case
    by (subst combineData.simps) simp
next
  case (Suc n)
  then have lt: "c < maxCount (dataView ts)" and n: "n = maxCount (dataView ts) - Suc c"
    by simp_all
  from lt have "dataColumn (map blockOf ts) (8 * int c) (r, False)
      = Inr (r @ column (dataView ts) c, True)"
    by (simp add: dataColumn_eq [OF assms])
  then have "combineData (map blockOf ts) (8 * int c) r
      = combineData (map blockOf ts) (8 * int c + 8) (r @ column (dataView ts) c)"
    by (subst combineData.simps) simp
  also have "8 * int c + 8 = 8 * int (Suc c)" by simp
  finally show ?case
    using lt unfolding Suc.IH [OF n] by (simp add: upt_conv_Cons)
qed

lemma combineEC_eq:
  assumes "exactBlocks ts"
  shows "n = maxCount (ecView ts) - c \<Longrightarrow>
     combineEC (map blockOf ts) (8 * int c) r
       = Inr (r @ concat (map (column (ecView ts)) [c..<maxCount (ecView ts)]))"
proof (induction n arbitrary: c r)
  case 0
  then have nl: "\<not> c < maxCount (ecView ts)" by simp
  then have "column (ecView ts) c = []"
    by (auto simp: column_def maxCount_less intro!: concat_eq_Nil_conv [THEN iffD2])
  with nl have "ecColumn (map blockOf ts) (8 * int c) (r, False) = Inr (r, False)"
    by (simp add: ecColumn_eq [OF assms])
  with nl show ?case
    by (subst combineEC.simps) simp
next
  case (Suc n)
  then have lt: "c < maxCount (ecView ts)" and n: "n = maxCount (ecView ts) - Suc c"
    by simp_all
  from lt have "ecColumn (map blockOf ts) (8 * int c) (r, False)
      = Inr (r @ column (ecView ts) c, True)"
    by (simp add: ecColumn_eq [OF assms])
  then have "combineEC (map blockOf ts) (8 * int c) r
      = combineEC (map blockOf ts) (8 * int c + 8) (r @ column (ecView ts) c)"
    by (subst combineEC.simps) simp
  also have "8 * int c + 8 = 8 * int (Suc c)" by simp
  finally show ?case
    using lt unfolding Suc.IH [OF n] by (simp add: upt_conv_Cons)
qed

lemma exactBlocks_splitPayload:
  "totalBits l \<le> length d \<Longrightarrow> exactBlocks (splitPayload d l)"
proof (induction d l rule: splitPayload.induct)
  case (1 d)
  then show ?case by (simp add: exactBlocks_def)
next
  case (2 d k e rest)
  then have "totalBits rest \<le> length (drop (8 * k) d)" and "8 * k \<le> length d"
    by (simp_all add: totalBits_def)
  with 2 show ?case by (simp add: exactBlocks_def)
qed

lemma length_layoutOf:
  "\<forall>b\<in>set gs. validGroup b \<Longrightarrow> int (length (layoutOf gs)) = sum_list (map numBlocks gs)"
  by (induction gs) (simp_all add: layoutOf_def validGroup_def)

lemma totalBits_layoutOf:
  "\<forall>b\<in>set gs. validGroup b \<Longrightarrow>
   int (totalBits (layoutOf gs)) = sum_list (map (\<lambda>b. 8 * numBlocks b * numDataCodewords b) gs)"
proof (induction gs)
  case Nil
  then show ?case by (simp add: layoutOf_def totalBits_def)
next
  case (Cons b gs)
  then have v: "0 \<le> numBlocks b" "0 \<le> numDataCodewords b"
    by (simp_all add: validGroup_def)
  then have "int (8 * nat (numDataCodewords b) * nat (numBlocks b))
      = 8 * numBlocks b * numDataCodewords b" by simp
  with Cons show ?case
    by (simp add: layoutOf_Cons totalBits_append totalBits_replicate)
qed

lemma encodeBlocks_eq:
  assumes valid: "\<forall>b\<in>set (block (version q)). validGroup b"
    and len: "numDataBits (version q) \<le> Len (data q)"
  shows "encodeBlocks q = Inr (interleavedBlocks (version q) (data q))"
proof -
  define gs where "gs = block (version q)"
  define l where "l = layoutOf gs"
  define ts where "ts = splitPayload (data q) l"
  from valid have v: "\<forall>b\<in>set gs. validGroup b" by (simp add: gs_def)
  have nb: "totalNumBlocks (version q) = int (length l)"
    using length_layoutOf [OF v] by (simp add: totalNumBlocks_def gs_def l_def)
  have tb: "totalBits l \<le> length (data q)"
    using totalBits_layoutOf [OF v] len by (simp add: numDataBits_def gs_def l_def Len_def)
  have ex: "exactBlocks ts" unfolding ts_def by (rule exactBlocks_splitPayload [OF tb])
  let ?empty = "\<lparr>dataBlock.data = None, ecStartOffset = 0\<rparr>"
  have "splitBlocks (data q) gs (replicate (length l) ?empty, int 0, int 0)
      = Inr (take 0 (replicate (length l) ?empty)
              @ map blockOf (splitPayload (drop 0 (data q)) (layoutOf gs))
              @ drop (0 + length (layoutOf gs)) (replicate (length l) ?empty),
             int (0 + totalBits (layoutOf gs)), int (0 + length (layoutOf gs)))"
    using tb by (intro splitBlocks_eq [OF v]) (simp_all add: l_def)
  then have sp: "splitBlocks (data q) gs (replicate (length l) ?empty, 0, 0)
      = Inr (map blockOf ts, int (totalBits l), int (length l))"
    by (simp add: l_def ts_def)
  have cd: "combineData (map blockOf ts) 0 [] = Inr (interleaveColumns (dataView ts))"
    using combineData_eq [OF ex refl, of 0 "[]"] by (simp add: interleaveColumns_def)
  have ce: "combineEC (map blockOf ts) 0 r = Inr (r @ interleaveColumns (ecView ts))" for r
    using combineEC_eq [OF ex refl, of 0 r] by (simp add: interleaveColumns_def)
  have "interleavedBlocks (version q) (data q)
      = interleaveColumns (dataView ts) @ interleaveColumns (ecView ts)
          @ replicate (nat (numRemainderBits (version q))) False"
    by (simp add: interleavedBlocks_def Let_def blockLayout_def ts_def l_def gs_def layoutOf_def
        dataView_def ecView_def)
  then show ?thesis
    unfolding encodeBlocks_def nb gs_def [symmetric]
    by (simp add: sp cd ce AppendNumBools_def)
qed


section \<open>Facts about the mask loop\<close>

lemma maskLoop_step:
  assumes "0 \<le> m" "m < 8"
    and "B (version q) m enc (\<not> DisableBorder q) = Inr s" "E s = 0"
  shows "maskLoop B E P enc m (q, pen) =
           (if symbol q = None \<or> P s < pen
            then maskLoop B E P enc (m + 1) (q\<lparr>symbol := Some s, mask := m\<rparr>, P s)
            else maskLoop B E P enc (m + 1) (q, pen))"
  using assms by (subst maskLoop.simps) (simp add: numMasks_def Let_def)

lemma maskLoop_done: "8 \<le> m \<Longrightarrow> maskLoop B E P enc m (q, pen) = Inr (q, pen)"
  by (subst maskLoop.simps) (simp add: numMasks_def)

lemma selected_keep: "selected score m c \<Longrightarrow> \<not> score m < score c \<Longrightarrow> selected score (m + 1) c"
  unfolding selected_def by (auto simp: not_less)

lemma selected_take:
  assumes "selected score m c" "score m < score c" "0 \<le> m"
  shows "selected score (m + 1) m"
proof -
  have lt: "score m < score k" if "0 \<le> k" "k < m" for k
  proof -
    from that assms(1) have "score c \<le> score k" by (simp add: selected_def)
    with assms(2) show ?thesis by simp
  qed
  have le: "score m \<le> score k" if "0 \<le> k" "k < m + 1" for k
  proof (cases "k = m")
    case True
    then show ?thesis by simp
  next
    case False
    with that have "k < m" by simp
    from lt [OF that(1) this] show ?thesis by simp
  qed
  from lt le assms(3) show ?thesis by (simp add: selected_def)
qed

lemma selected_first: "selected score 1 0"
proof -
  have "score 0 \<le> score k" if "0 \<le> k" "k < 1" for k :: int
  proof -
    from that have "k = 0" by linarith
    then show ?thesis by simp
  qed
  then show ?thesis by (simp add: selected_def)
qed

lemma maskLoop_selects:
  assumes builds: "\<And>k. 0 \<le> k \<Longrightarrow> k < 8 \<Longrightarrow>
      B (version q) k enc (\<not> DisableBorder q) = Inr (S k) \<and> E (S k) = 0"
  shows "n = nat (8 - m) \<Longrightarrow> 0 < m \<Longrightarrow> m \<le> 8 \<Longrightarrow> selected (\<lambda>k. P (S k)) m c \<Longrightarrow>
     \<exists>c'. maskLoop B E P enc m (q\<lparr>symbol := Some (S c), mask := c\<rparr>, P (S c))
            = Inr (q\<lparr>symbol := Some (S c'), mask := c'\<rparr>, P (S c'))
          \<and> selected (\<lambda>k. P (S k)) 8 c'"
proof (induction n arbitrary: m c)
  case 0
  then have "m = 8" by simp
  with 0 have "maskLoop B E P enc m (q\<lparr>symbol := Some (S c), mask := c\<rparr>, P (S c))
            = Inr (q\<lparr>symbol := Some (S c), mask := c\<rparr>, P (S c))
          \<and> selected (\<lambda>k. P (S k)) 8 c"
    by (simp only: maskLoop_done order_refl simp_thms)
  then show ?case by (rule exI)
next
  case (Suc n)
  then have m: "0 \<le> m" "m < 8" by simp_all
  let ?q = "q\<lparr>symbol := Some (S c), mask := c\<rparr>"
  from builds [OF m]
  have b: "B (version ?q) m enc (\<not> DisableBorder ?q) = Inr (S m)" "E (S m) = 0"
    by simp_all
  have "maskLoop B E P enc m (?q, P (S c)) =
           (if symbol ?q = None \<or> P (S m) < P (S c)
            then maskLoop B E P enc (m + 1) (?q\<lparr>symbol := Some (S m), mask := m\<rparr>, P (S m))
            else maskLoop B E P enc (m + 1) (?q, P (S c)))"
    using m b by (rule maskLoop_step)
  then have st: "maskLoop B E P enc m (?q, P (S c)) =
           (if P (S m) < P (S c)
            then maskLoop B E P enc (m + 1) (q\<lparr>symbol := Some (S m), mask := m\<rparr>, P (S m))
            else maskLoop B E P enc (m + 1) (?q, P (S c)))"
    by simp
  from Suc.prems have n: "n = nat (8 - (m + 1))" "0 < m + 1" "m + 1 \<le> 8" by simp_all
  show ?case
  proof (cases "P (S m) < P (S c)")
    case True
    with Suc.prems m have "selected (\<lambda>k. P (S k)) (m + 1) m"
      by (intro selected_take [of _ m c]) simp_all
    from Suc.IH [OF n this] have "\<exists>c'. maskLoop B E P enc (m + 1)
              (q\<lparr>symbol := Some (S m), mask := m\<rparr>, P (S m)) =
             Inr (q\<lparr>symbol := Some (S c'), mask := c'\<rparr>, P (S c')) \<and>
             selected (\<lambda>k. P (S k)) 8 c'" .
    with True show ?thesis unfolding st by (simp only: if_True)
  next
    case False
    with Suc.prems have "selected (\<lambda>k. P (S k)) (m + 1) c"
      by (intro selected_keep) simp_all
    from Suc.IH [OF n this] have "\<exists>c'. maskLoop B E P enc (m + 1) (?q, P (S c)) =
             Inr (q\<lparr>symbol := Some (S c'), mask := c'\<rparr>, P (S c')) \<and>
             selected (\<lambda>k. P (S k)) 8 c'" .
    with False show ?thesis unfolding st by (simp only: if_False)
  qed
qed

lemma maskLoop_fresh:
  assumes builds: "\<And>k. 0 \<le> k \<Longrightarrow> k < 8 \<Longrightarrow>
      B (version q) k enc (\<not> DisableBorder q) = Inr (S k) \<and> E (S k) = 0"
    and fresh: "symbol q = None"
  shows "\<exists>c. maskLoop B E P enc 0 (q, pen)
            = Inr (q\<lparr>symbol := Some (S c), mask := c\<rparr>, P (S c))
          \<and> selected (\<lambda>k. P (S k)) 8 c"
proof -
  from builds [of 0] have b: "B (version q) 0 enc (\<not> DisableBorder q) = Inr (S 0)" "E (S 0) = 0"
    by simp_all
  have "maskLoop B E P enc 0 (q, pen) =
           (if symbol q = None \<or> P (S 0) < pen
            then maskLoop B E P enc (0 + 1) (q\<lparr>symbol := Some (S 0), mask := 0\<rparr>, P (S 0))
            else maskLoop B E P enc (0 + 1) (q, pen))"
    using _ _ b by (rule maskLoop_step) simp_all
  with fresh have st: "maskLoop B E P enc 0 (q, pen)
          = maskLoop B E P enc 1 (q\<lparr>symbol := Some (S 0), mask := 0\<rparr>, P (S 0))"
    by simp
  have "\<exists>c'. maskLoop B E P enc 1 (q\<lparr>symbol := Some (S 0), mask := 0\<rparr>, P (S 0))
            = Inr (q\<lparr>symbol := Some (S c'), mask := c'\<rparr>, P (S c'))
          \<and> selected (\<lambda>k. P (S k)) 8 c'"
    using builds by (rule maskLoop_selects [where n = 7]) (simp_all add: selected_first)
  then show ?thesis unfolding st .
qed

lemma addPadding_fields:
  assumes "addPadding q = Inr q'"
  shows "symbol q' = symbol q \<and> mask q' = mask q \<and> version q' = version q
         \<and> DisableBorder q' = DisableBorder q"
proof (cases "Len (data q) = numDataBits (version q)")
  case True
  with assms show ?thesis by (simp add: addPadding_def)
next
  case False
  let ?r = "padLoop (numDataBits (version q))
              (AppendNumBools (data q) (numBitsToPadToCodeword (version q) (Len (data q))) False) 0"
  show ?thesis
  proof (cases ?r)
    case (Inl p)
    with assms False show ?thesis by (simp add: addPadding_def Let_def)
  next
    case (Inr d)
    show ?thesis
    proof (cases "Len d \<noteq> numDataBits (version q)")
      case True
      with assms False Inr show ?thesis by (simp add: addPadding_def Let_def)
    next
      case eq: False
      with assms False Inr have "q' = q\<lparr>data := d\<rparr>" by (simp add: addPadding_def Let_def)
      then show ?thesis by simp
    qed
  qed
qed

lemma maskLoop_mask_range':
  "n = nat (8 - m) \<Longrightarrow> maskLoop B E P enc m (q, pen) = Inr (q', pen') \<Longrightarrow> 0 \<le> m \<Longrightarrow>
   (0 \<le> mask q \<and> mask q < 8) \<or> (symbol q = None \<and> m < 8) \<Longrightarrow> 0 \<le> mask q' \<and> mask q' < 8"
proof (induction n arbitrary: m q pen)
  case 0
  then have "8 \<le> m" by simp
  with 0 show ?case by (simp add: maskLoop_done)
next
  case (Suc n)
  then have m: "0 \<le> m" "m < 8" by simp_all
  from Suc.prems have n: "n = nat (8 - (m + 1))" "0 \<le> m + 1" by simp_all
  show ?case
  proof (cases "B (version q) m enc (\<not> DisableBorder q)")
    case (Inl e)
    with m Suc.prems(2) show ?thesis
      by (subst (asm) maskLoop.simps) (simp add: numMasks_def)
  next
    case (Inr s)
    show ?thesis
    proof (cases "E s = 0")
      case False
      with m Inr Suc.prems(2) show ?thesis
        by (subst (asm) maskLoop.simps) (simp add: numMasks_def)
    next
      case True
      have st: "maskLoop B E P enc m (q, pen) =
           (if symbol q = None \<or> P s < pen
            then maskLoop B E P enc (m + 1) (q\<lparr>symbol := Some s, mask := m\<rparr>, P s)
            else maskLoop B E P enc (m + 1) (q, pen))"
        using m Inr True by (rule maskLoop_step)
      show ?thesis
      proof (cases "symbol q = None \<or> P s < pen")
        case True
        with st Suc.prems(2)
        have r: "maskLoop B E P enc (m + 1) (q\<lparr>symbol := Some s, mask := m\<rparr>, P s) = Inr (q', pen')"
          by simp
        from m have "(0 \<le> mask (q\<lparr>symbol := Some s, mask := m\<rparr>)
              \<and> mask (q\<lparr>symbol := Some s, mask := m\<rparr>) < 8)
            \<or> (symbol (q\<lparr>symbol := Some s, mask := m\<rparr>) = None \<and> m + 1 < 8)" by simp
        with n(1) r n(2) show ?thesis by (rule Suc.IH)
      next
        case False
        with st Suc.prems(2)
        have r: "maskLoop B E P enc (m + 1) (q, pen) = Inr (q', pen')" by simp
        from False Suc.prems(4) have "0 \<le> mask q \<and> mask q < 8" by blast
        then have "(0 \<le> mask q \<and> mask q < 8) \<or> (symbol q = None \<and> m + 1 < 8)" ..
        with n(1) r n(2) show ?thesis by (rule Suc.IH)
      qed
    qed
  qed
qed

lemma maskLoop_all_built:
  "n = nat (8 - m) \<Longrightarrow> maskLoop B E P enc m (q, pen) = Inr r \<Longrightarrow> 0 \<le> m \<Longrightarrow>
   m \<le> k \<Longrightarrow> k < 8 \<Longrightarrow>
   \<exists>s. B (version q) k enc (\<not> DisableBorder q) = Inr s \<and> E s = 0"
proof (induction n arbitrary: m q pen)
  case 0
  then show ?case by simp
next
  case (Suc n)
  then have m: "0 \<le> m" "m < 8" by simp_all
  from Suc.prems have n: "n = nat (8 - (m + 1))" "0 \<le> m + 1" by simp_all
  show ?case
  proof (cases "B (version q) m enc (\<not> DisableBorder q)")
    case (Inl e)
    with m Suc.prems(2) show ?thesis
      by (subst (asm) maskLoop.simps) (simp add: numMasks_def)
  next
    case (Inr s)
    show ?thesis
    proof (cases "E s = 0")
      case False
      with m Inr Suc.prems(2) show ?thesis
        by (subst (asm) maskLoop.simps) (simp add: numMasks_def)
    next
      case True
      have st: "maskLoop B E P enc m (q, pen) =
           (if symbol q = None \<or> P s < pen
            then maskLoop B E P enc (m + 1) (q\<lparr>symbol := Some s, mask := m\<rparr>, P s)
            else maskLoop B E P enc (m + 1) (q, pen))"
        using m Inr True by (rule maskLoop_step)
      show ?thesis
      proof (cases "k = m")
        case True
        with Inr \<open>E s = 0\<close> show ?thesis by simp
      next
        case False
        with Suc.prems have k: "m + 1 \<le> k" by simp
        show ?thesis
        proof (cases "symbol q = None \<or> P s < pen")
          case True
          with st Suc.prems(2)
          have "maskLoop B E P enc (m + 1) (q\<lparr>symbol := Some s, mask := m\<rparr>, P s) = Inr r"
            by simp
          from Suc.IH [OF n(1) this n(2) k Suc.prems(5)] show ?thesis by simp
        next
          case False
          with st Suc.prems(2)
          have "maskLoop B E P enc (m + 1) (q, pen) = Inr r" by simp
          from Suc.IH [OF n(1) this n(2) k Suc.prems(5)] show ?thesis .
        qed
      qed
    qed
  qed
qed

text \<open>
  A \<^verbatim>\<open>QRCode\<close> that has a symbol already: the loop starts again from the penalty 0, its
  test \<^verbatim>\<open>q.symbol == nil || p < penalty\<close> fails for every score that is not negative, and
  the symbol and the mask stay as they were.
\<close>

lemma maskLoop_keep:
  assumes builds: "\<And>k. 0 \<le> k \<Longrightarrow> k < 8 \<Longrightarrow>
      \<exists>s. B (version q) k enc (\<not> DisableBorder q) = Inr s \<and> E s = 0 \<and> pen \<le> P s"
    and stale: "symbol q \<noteq> None"
  shows "n = nat (8 - m) \<Longrightarrow> 0 \<le> m \<Longrightarrow> maskLoop B E P enc m (q, pen) = Inr (q, pen)"
proof (induction n arbitrary: m)
  case 0
  then have "8 \<le> m" by simp
  then show ?case by (rule maskLoop_done)
next
  case (Suc n)
  then have m: "0 \<le> m" "m < 8" by simp_all
  from builds [OF m] obtain s where b: "B (version q) m enc (\<not> DisableBorder q) = Inr s"
    "E s = 0" and p: "pen \<le> P s" by (elim exE conjE)
  have "maskLoop B E P enc m (q, pen) =
           (if symbol q = None \<or> P s < pen
            then maskLoop B E P enc (m + 1) (q\<lparr>symbol := Some s, mask := m\<rparr>, P s)
            else maskLoop B E P enc (m + 1) (q, pen))"
    using m b by (rule maskLoop_step)
  also have "\<dots> = maskLoop B E P enc (m + 1) (q, pen)"
    using stale p by (simp only: not_less [symmetric] simp_thms if_False)
  also have "\<dots> = Inr (q, pen)"
    using Suc.prems by (intro Suc.IH) simp_all
  finally show ?case .
qed

lemma encode_stale:
  fixes q :: "'sym QRCode"
  assumes stale: "symbol q \<noteq> None"
    and pad: "addPadding (addTerminatorBits q
                (numTerminatorBitsRequired (version q) (Len (data q)))) = Inr q1"
    and blocks: "encodeBlocks q1 = Inr encoded"
    and builds: "\<And>k. 0 \<le> k \<Longrightarrow> k < 8 \<Longrightarrow>
      \<exists>s. buildRegularSymbol (version q1) k encoded (\<not> DisableBorder q1) = Inr s
          \<and> numEmptyModules s = 0 \<and> 0 \<le> penaltyScore s"
  shows "encode buildRegularSymbol numEmptyModules penaltyScore q = Inr q1"
proof -
  have f1: "symbol q1 \<noteq> None"
    using addPadding_fields [OF pad] stale by (simp add: addTerminatorBits_def)
  have "maskLoop buildRegularSymbol numEmptyModules penaltyScore encoded 0 (q1, 0) = Inr (q1, 0)"
    using builds f1 by (rule maskLoop_keep [where n = 8]) simp_all
  then show ?thesis
    by (simp add: encode_def Let_def pad blocks)
qed

section \<open>Two small versions worked out\<close>

lemma toBytes_1_0:
  "toBytes [False, False, False, False, False, False, False, True,
            False, False, False, False, False, False, False, False] = [1, 0]"
  by (simp add: byteOfBits_def)

lemma gfMultiply_3_3: "gfMultiply 3 3 = 5"
  by (simp add: gfMultiply_def gfZero_def gfLogTable_def gfExpTable_def go_rem_def)

lemma gfMultiply_2_3: "gfMultiply 2 3 = 6"
  by (simp add: gfMultiply_def gfZero_def gfLogTable_def gfExpTable_def go_rem_def)

lemma gfMultiply_3_2: "gfMultiply 3 2 = 6"
  by (simp add: gfMultiply_def gfZero_def gfLogTable_def gfExpTable_def go_rem_def)

lemma ecBytes_1_0:
  "ecBytes [False, False, False, False, False, False, False, True,
            False, False, False, False, False, False, False, False] 2 = [7, 6]"
  unfolding ecBytes_def toBytes_1_0 generatorProduct_2
  by (simp add: gfPolyRemainder_def polyData_def newGFPolyMonomial_def numeral_2_eq_2 numeral_3_eq_3
      gfMultiply_one_left gfMultiply_one_right gfMultiply_zero_left gfMultiply_zero_right
      gfAdd_def gfMultiply_3_3 gfMultiply_3_2 gfMultiply_2_3)

lemma interleavedBlocks_example:
  "interleavedBlocks
     \<lparr>level = Low, version = 1,
      block = [\<lparr>numBlocks = 1, numCodewords = 3, numDataCodewords = 1\<rparr>,
               \<lparr>numBlocks = 1, numCodewords = 4, numDataCodewords = 2\<rparr>],
      numRemainderBits = 3\<rparr>
     (concat (map bitsOfByte [1, 1, 0]))
   = concat (map bitsOfByte [1, 1, 0, 3, 7, 2, 6]) @ [False, False, False]"
  by (simp add: interleavedBlocks_def blockLayout_def interleaveColumns_def column_def
      codeword_def bitsOfByte_def ecBytes_example [unfolded numeral_2_eq_2]
      ecBytes_1_0 [unfolded numeral_2_eq_2] numeral_2_eq_2 numeral_3_eq_3
      upt_rec [of 0] upt_rec [of 1])

lemma interleavedBlocks_single:
  "interleavedBlocks
     \<lparr>level = Low, version = 1,
      block = [\<lparr>numBlocks = 1, numCodewords = 3, numDataCodewords = 1\<rparr>],
      numRemainderBits = 0\<rparr>
     (bitsOfByte 1)
   = concat (map bitsOfByte [1, 3, 2])"
  by (simp add: interleavedBlocks_def blockLayout_def interleaveColumns_def column_def
      codeword_def bitsOfByte_def ecBytes_example [unfolded numeral_2_eq_2]
      numeral_2_eq_2 numeral_3_eq_3 upt_rec [of 0] upt_rec [of 1])

section \<open>Facts about the constructor\<close>

lemma newLoop_fit:
  "fitsBand encodeData chooseVersion content level' t = Some (bits, v) \<Longrightarrow>
   newLoop encodeData chooseVersion content level' (t # ts) (a, b, c, d)
     = (Some t, Some bits, Some v, None)"
  by (simp add: fitsBand_def split: sum.splits option.splits)

lemma newLoop_nofit:
  "fitsBand encodeData chooseVersion content level' t = None \<Longrightarrow>
   newLoop encodeData chooseVersion content level' (t # ts) (a, b, c, d)
     = newLoop encodeData chooseVersion content level' ts
         (case encodeData t content of
            Inl e \<Rightarrow> (Some t, None, c, Some e)
          | Inr bits \<Rightarrow> (Some t, Some bits, None, None))"
  by (simp add: fitsBand_def split: sum.splits option.splits)

lemma New_eq:
  "New encodeData chooseVersion content level' =
     (case fitsBand encodeData chooseVersion content level' dataEncoderType1To9 of
        Some (bits, v) \<Rightarrow> Inr (newQRCode content level' dataEncoderType1To9 bits v)
      | None \<Rightarrow>
         (case fitsBand encodeData chooseVersion content level' dataEncoderType10To26 of
            Some (bits, v) \<Rightarrow> Inr (newQRCode content level' dataEncoderType10To26 bits v)
          | None \<Rightarrow>
             (case fitsBand encodeData chooseVersion content level' dataEncoderType27To40 of
                Some (bits, v) \<Rightarrow> Inr (newQRCode content level' dataEncoderType27To40 bits v)
              | None \<Rightarrow>
                 (case encodeData dataEncoderType27To40 content of
                    Inl e \<Rightarrow> Inl e
                  | Inr bits \<Rightarrow> Inl ContentTooLong))))"
proof (cases "fitsBand encodeData chooseVersion content level' dataEncoderType1To9")
  case (Some r1)
  obtain bits v where "r1 = (bits, v)" by (cases r1)
  with Some show ?thesis
    by (simp add: New_def newLoop_fit newQRCode_def del: newLoop.simps)
next
  case n1: None
  show ?thesis
  proof (cases "fitsBand encodeData chooseVersion content level' dataEncoderType10To26")
    case (Some r2)
    obtain bits v where "r2 = (bits, v)" by (cases r2)
    with Some n1 show ?thesis
      by (cases "encodeData dataEncoderType1To9 content")
         (simp_all add: New_def newLoop_nofit newLoop_fit newQRCode_def del: newLoop.simps(2))
  next
    case n2: None
    show ?thesis
    proof (cases "fitsBand encodeData chooseVersion content level' dataEncoderType27To40")
      case (Some r3)
      obtain bits v where "r3 = (bits, v)" by (cases r3)
      with Some n1 n2 show ?thesis
        by (cases "encodeData dataEncoderType1To9 content";
            cases "encodeData dataEncoderType10To26 content")
           (simp_all add: New_def newLoop_nofit newLoop_fit newQRCode_def del: newLoop.simps(2))
    next
      case n3: None
      with n1 n2 show ?thesis
        by (cases "encodeData dataEncoderType1To9 content";
            cases "encodeData dataEncoderType10To26 content";
            cases "encodeData dataEncoderType27To40 content")
           (simp_all add: New_def newLoop_nofit del: newLoop.simps(2))
    qed
  qed
qed

lemma chooseQRCodeVersion_Some:
  assumes "chooseQRCodeVersion versions level' t n = Some v"
  shows "v \<in> set versions \<and> level v = level' \<and> minVersion t \<le> qrCodeVersion.version v
         \<and> qrCodeVersion.version v \<le> maxVersion t \<and> n \<le> numDataBits v
         \<and> (\<forall>v'\<in>set versions.
               level v' = level' \<and> minVersion t \<le> qrCodeVersion.version v'
               \<and> qrCodeVersion.version v' \<le> maxVersion t \<and> n \<le> numDataBits v'
               \<longrightarrow> qrCodeVersion.version v \<le> qrCodeVersion.version v')"
proof -
  define ok where "ok = (\<lambda>v. level v = level' \<and> minVersion t \<le> qrCodeVersion.version v
      \<and> qrCodeVersion.version v \<le> maxVersion t \<and> numDataBits v \<ge> n)"
  define fitting where "fitting = filter ok versions"
  from assms have ne: "fitting \<noteq> []" and v: "v = arg_min_list qrCodeVersion.version fitting"
    by (auto simp: chooseQRCodeVersion_def Let_def fitting_def ok_def split: if_splits)
  from arg_min_list_in [OF ne] v have "v \<in> set fitting" by simp
  then have m: "v \<in> set versions" "ok v" by (simp_all add: fitting_def)
  have "qrCodeVersion.version v \<le> qrCodeVersion.version v'" if "v' \<in> set versions" "ok v'" for v'
  proof -
    from that have "qrCodeVersion.version v' \<in> qrCodeVersion.version ` set fitting"
      by (simp add: fitting_def)
    then have "Min (qrCodeVersion.version ` set fitting) \<le> qrCodeVersion.version v'"
      by simp
    with f_arg_min_list_f [OF ne, of qrCodeVersion.version] v show ?thesis by simp
  qed
  with m show ?thesis unfolding ok_def by blast
qed

lemma chooseQRCodeVersion_None:
  "chooseQRCodeVersion versions level' t n = None \<longleftrightarrow>
     \<not> (\<exists>v\<in>set versions. level v = level' \<and> minVersion t \<le> qrCodeVersion.version v
           \<and> qrCodeVersion.version v \<le> maxVersion t \<and> n \<le> numDataBits v)"
  by (auto simp: chooseQRCodeVersion_def Let_def filter_empty_conv)

lemma fitsBand_Some:
  assumes "fitsBand encodeData (chooseQRCodeVersion versions) content level' t = Some (bits, v)"
  shows "encodeData t content = Inr bits \<and> v \<in> set versions \<and> level v = level'
         \<and> minVersion t \<le> qrCodeVersion.version v \<and> qrCodeVersion.version v \<le> maxVersion t
         \<and> Len bits \<le> numDataBits v
         \<and> (\<forall>v'\<in>set versions.
               level v' = level' \<and> minVersion t \<le> qrCodeVersion.version v'
               \<and> qrCodeVersion.version v' \<le> maxVersion t \<and> Len bits \<le> numDataBits v'
               \<longrightarrow> qrCodeVersion.version v \<le> qrCodeVersion.version v')"
proof -
  from assms have e: "encodeData t content = Inr bits"
    and c: "chooseQRCodeVersion versions level' t (Len bits) = Some v"
    by (auto simp: fitsBand_def split: sum.splits option.splits)
  from e chooseQRCodeVersion_Some [OF c] show ?thesis by blast
qed

section \<open>The claims about the field\<close>

text \<open>
  Claim C3.  The two hard-coded tables are the tables of the field defined by
  \<open>x^8 + x^4 + x^3 + x^2 + 1\<close> with generator 2: entry \<open>i\<close> of \<^verbatim>\<open>gfExpTable\<close> is \<open>\<alpha>^i\<close> for
  every \<open>i\<close> from 0 to 254, entries 255 and 0 are both 1, and for every nonzero byte \<open>v\<close>
  the entry \<^verbatim>\<open>gfLogTable[v]\<close> lies in 0..254, satisfies \<open>\<alpha>^(gfLogTable[v]) = v\<close>, and is
  the only exponent below 255 that does.
\<close>

theorem gf_tables_are_the_field_tables:
  "(\<forall>i<255. unat (gfExpTable ! i) = alpha_pow i)
   \<and> gfExpTable ! 255 = 1 \<and> gfExpTable ! 0 = 1
   \<and> length gfExpTable = 256 \<and> length gfLogTable = 256
   \<and> (\<forall>v::gfElement. v \<noteq> 0 \<longrightarrow>
         0 \<le> gfLogTable ! unat v \<and> gfLogTable ! unat v < 255
         \<and> alpha_pow (nat (gfLogTable ! unat v)) = unat v
         \<and> (\<forall>i<255. alpha_pow i = unat v \<longrightarrow> int i = gfLogTable ! unat v))"
proof -
  have exp: "\<forall>i<255. unat (gfExpTable ! i) = alpha_pow i"
    by (simp add: gfExpTable_is_alpha_pow)
  have ends: "gfExpTable ! 255 = 1" "gfExpTable ! 0 = 1"
    by (simp_all add: gfExpTable_def)
  have log: "0 \<le> gfLogTable ! unat v \<and> gfLogTable ! unat v < 255
         \<and> alpha_pow (nat (gfLogTable ! unat v)) = unat v
         \<and> (\<forall>i<255. alpha_pow i = unat v \<longrightarrow> int i = gfLogTable ! unat v)"
    if "v \<noteq> 0" for v :: gfElement
  proof -
    note r = gfLogTable_range [OF that]
    from r have lt: "nat (gfLogTable ! unat v) < 256" by linarith
    have inv: "alpha_pow (nat (gfLogTable ! unat v)) = unat v"
      using gfExpTable_is_alpha_pow [OF lt] r by simp
    have uniq: "int i = gfLogTable ! unat v" if "i < 255" "alpha_pow i = unat v" for i
    proof -
      from that have "unat (gfExpTable ! i) = unat v"
        by (simp add: gfExpTable_is_alpha_pow)
      then have "gfExpTable ! i = v" by (simp add: word_unat_eq_iff)
      with gfLogTable_of_exp [OF that(1)] show ?thesis by simp
    qed
    from r inv uniq show ?thesis by blast
  qed
  from exp ends log show ?thesis
    by (simp add: length_gfExpTable length_gfLogTable)
qed

theorem gf_tables_witness:
  "alpha_pow 8 = 29 \<and> gfExpTable ! 8 = 29 \<and> gfLogTable ! unat (29 :: gfElement) = 8"
proof -
  have e: "gfExpTable ! 8 = 29" by (simp add: gfExpTable_def)
  have "(8::nat) < 255" by simp
  with gf_tables_are_the_field_tables have "unat (gfExpTable ! 8) = alpha_pow 8" by blast
  with e have p: "alpha_pow 8 = 29" by simp
  have "(29 :: gfElement) \<noteq> 0" by simp
  with gf_tables_are_the_field_tables
  have "\<forall>i<255. alpha_pow i = unat (29 :: gfElement) \<longrightarrow> int i = gfLogTable ! unat (29 :: gfElement)"
    by blast
  then have "(8::nat) < 255 \<longrightarrow> alpha_pow 8 = unat (29 :: gfElement)
      \<longrightarrow> int 8 = gfLogTable ! unat (29 :: gfElement)" by blast
  with p have "gfLogTable ! unat (29 :: gfElement) = 8" by simp
  with e p show ?thesis by simp
qed

text \<open>
  Claim C8.  \<^verbatim>\<open>gfDivide(a, b)\<close> returns 0 whenever \<open>a = 0\<close>, whatever \<open>b\<close> is; it panics
  exactly when \<open>b = 0\<close> and \<open>a \<noteq> 0\<close>, and the panic is the divide-by-zero one; otherwise
  \<^verbatim>\<open>gfInverse(b)\<close> returns and the result is \<^verbatim>\<open>gfMultiply(a, gfInverse(b))\<close>.  In particular
  \<open>div(0, 5) = 0\<close> and \<open>div(5, 0)\<close> panics.
\<close>

theorem gfDivide_cases:
  "(a = 0 \<longrightarrow> gfDivide a b = Inr 0)
   \<and> ((\<exists>p. gfDivide a b = Inl p) \<longleftrightarrow> (b = 0 \<and> a \<noteq> 0))
   \<and> (b = 0 \<and> a \<noteq> 0 \<longrightarrow> gfDivide a b = Inl DivideByZero)
   \<and> (a \<noteq> 0 \<and> b \<noteq> 0 \<longrightarrow>
        (\<exists>i. gfInverse b = Inr i \<and> gfDivide a b = Inr (gfMultiply a i)))
   \<and> gfDivide 0 5 = Inr 0
   \<and> gfDivide 5 0 = Inl DivideByZero"
  by (auto simp: gfDivide_def gfInverse_def gfZero_def)

theorem gfDivide_witness:
  "gfDivide 0 0 = Inr 0 \<and> gfDivide 7 0 = Inl DivideByZero
   \<and> gfInverse 2 = Inr 142 \<and> gfDivide 1 2 = Inr (gfMultiply 1 142)"
proof -
  have i: "gfInverse 2 = Inr 142"
    by (simp add: gfInverse_def gfZero_def gfLogTable_def gfExpTable_def)
  have "(1::gfElement) \<noteq> 0 \<and> (2::gfElement) \<noteq> 0" by simp
  with gfDivide_cases [of 1 2]
  have "\<exists>j. gfInverse 2 = Inr j \<and> gfDivide 1 2 = Inr (gfMultiply 1 j)" by blast
  with i have d: "gfDivide 1 2 = Inr (gfMultiply 1 142)" by auto
  have "(0::gfElement) = 0 \<and> (7::gfElement) \<noteq> 0" by simp
  with gfDivide_cases [of 0 0] gfDivide_cases [of 7 0] i d show ?thesis by blast
qed

section \<open>The claims about the Reed-Solomon encoder\<close>

text \<open>
  Claim C4, as amended.  \<^verbatim>\<open>rsGeneratorPoly(degree)\<close> panics with "degree < 2" when
  \<open>degree < 2\<close>; for every degree from 2 to 256 it returns the product over
  \<open>i = 0, \<dots>, degree - 1\<close> of \<open>x + \<alpha>^i\<close>, a polynomial with \<open>degree + 1\<close> coefficients and
  leading coefficient 1, so of degree \<open>degree\<close>; for every degree above 256 it panics on
  the index \<^verbatim>\<open>gfExpTable[256]\<close>.
\<close>

theorem rsGeneratorPoly_result:
  "(degree < 2 \<longrightarrow> rsGeneratorPoly degree = Inl DegreeTooSmall)
   \<and> (2 \<le> degree \<and> degree \<le> 256 \<longrightarrow>
        rsGeneratorPoly degree = Inr (generatorProduct (nat degree))
        \<and> int (length (generatorProduct (nat degree))) - 1 = degree
        \<and> last (generatorProduct (nat degree)) = 1)
   \<and> (256 < degree \<longrightarrow> rsGeneratorPoly degree = Inl IndexOutOfRange)"
  using rsGeneratorPoly_eq [of degree] rsGeneratorPoly_above [of degree]
    generatorProduct_shape [of "nat degree"]
  by (auto simp: rsGeneratorPoly_def)

text \<open>
  The claim as first stated, a panic exactly when \<open>degree < 2\<close>, fails at degree 257.
\<close>

theorem rsGeneratorPoly_counterexample: "rsGeneratorPoly 257 = Inl IndexOutOfRange"
  using rsGeneratorLoop_panics [of 0 257 "[1]"] by (simp add: rsGeneratorPoly_def)

theorem rsGeneratorPoly_witness:
  "rsGeneratorPoly 1 = Inl DegreeTooSmall
   \<and> rsGeneratorPoly 2 = Inr (generatorProduct 2) \<and> length (generatorProduct 2) = 3
   \<and> rsGeneratorPoly 300 = Inl IndexOutOfRange"
  using rsGeneratorPoly_result [of 1] rsGeneratorPoly_result [of 2] rsGeneratorPoly_result [of 300]
  by simp

text \<open>
  Claim C1, as amended.  For every bit stream and every \<open>numECBytes\<close> from 2 to 256,
  \<^verbatim>\<open>Encode\<close> returns the input bits unchanged, followed by exactly \<open>numECBytes\<close> bytes:
  the remainder of \<open>M(x) \<cdot> x^numECBytes\<close> divided by the generator polynomial, where the
  highest-degree coefficient of \<open>M\<close> is the first input byte.  The total length is
  \<open>Len + 8 \<cdot> numECBytes\<close>.  The bytes are the remainder in the sense of division: read
  as a polynomial \<open>R\<close> with \<open>numECBytes\<close> coefficients, so of degree below that of the
  generator \<open>G\<close>, there is a quotient \<open>Q\<close> with \<open>M(x) \<cdot> x^numECBytes = G \<cdot> Q + R\<close>,
  coefficient by coefficient.  For every \<open>numECBytes\<close> above 256, \<^verbatim>\<open>Encode\<close> panics on the
  index \<^verbatim>\<open>gfExpTable[256]\<close>.
\<close>

theorem Encode_appends_remainder:
  "(2 \<le> numECBytes \<and> numECBytes \<le> 256 \<longrightarrow>
      (\<exists>result. Encode bits numECBytes = Inr result
           \<and> result = bits @ concat (map bitsOfByte (ecBytes bits (nat numECBytes)))
           \<and> take (length bits) result = bits
           \<and> length (ecBytes bits (nat numECBytes)) = nat numECBytes
           \<and> Len result = Len bits + 8 * numECBytes
           \<and> (bits \<noteq> [] \<longrightarrow> last (newGFPolyFromData bits) = byteOfBits (take 8 bits))
           \<and> (\<exists>Q. \<forall>i. (if nat numECBytes \<le> i
                         then coeff (newGFPolyFromData bits) (i - nat numECBytes) else 0)
                      = gfAdd (coeff (gfPolyMultiply (generatorProduct (nat numECBytes)) Q) i)
                              (coeff (rev (ecBytes bits (nat numECBytes))) i))))
   \<and> (256 < numECBytes \<longrightarrow> Encode bits numECBytes = Inl IndexOutOfRange)"
proof (intro conjI impI)
  assume "256 < numECBytes"
  then show "Encode bits numECBytes = Inl IndexOutOfRange"
    by (simp add: Encode_def rsGeneratorPoly_above)
next
  assume "2 \<le> numECBytes \<and> numECBytes \<le> 256"
  then have assms: "2 \<le> numECBytes" "numECBytes \<le> 256" by simp_all
  have first: "bits \<noteq> [] \<longrightarrow> last (newGFPolyFromData bits) = byteOfBits (take 8 bits)"
    by (cases bits) (simp_all add: newGFPolyFromData_def last_rev hd_toBytes)
  have rem: "\<exists>Q. \<forall>i. (if nat numECBytes \<le> i
                         then coeff (newGFPolyFromData bits) (i - nat numECBytes) else 0)
                      = gfAdd (coeff (gfPolyMultiply (generatorProduct (nat numECBytes)) Q) i)
                              (coeff (rev (ecBytes bits (nat numECBytes))) i)"
    using ecBytes_is_remainder [of "nat numECBytes" bits]
    unfolding newGFPolyFromData_def gfAdd_def .
  let ?result = "bits @ concat (map bitsOfByte (ecBytes bits (nat numECBytes)))"
  have e: "Encode bits numECBytes = Inr ?result" using assms by (rule Encode_eq)
  have l: "Len ?result = Len bits + 8 * numECBytes"
    using assms by (simp add: Len_def length_concat_bitsOfByte length_ecBytes)
  have t: "take (length bits) ?result = bits" by simp
  have n: "length (ecBytes bits (nat numECBytes)) = nat numECBytes" by (rule length_ecBytes)
  show "\<exists>result. Encode bits numECBytes = Inr result
           \<and> result = bits @ concat (map bitsOfByte (ecBytes bits (nat numECBytes)))
           \<and> take (length bits) result = bits
           \<and> length (ecBytes bits (nat numECBytes)) = nat numECBytes
           \<and> Len result = Len bits + 8 * numECBytes
           \<and> (bits \<noteq> [] \<longrightarrow> last (newGFPolyFromData bits) = byteOfBits (take 8 bits))
           \<and> (\<exists>Q. \<forall>i. (if nat numECBytes \<le> i
                         then coeff (newGFPolyFromData bits) (i - nat numECBytes) else 0)
                      = gfAdd (coeff (gfPolyMultiply (generatorProduct (nat numECBytes)) Q) i)
                              (coeff (rev (ecBytes bits (nat numECBytes))) i))"
    by (rule exI [of _ ?result]) (intro conjI e refl t n l first rem)
qed

text \<open>
  The claim as first stated, for every \<open>numECBytes \<ge> 2\<close>, fails at 257: the generator
  cannot be built and \<^verbatim>\<open>Encode\<close> panics.
\<close>

theorem Encode_counterexample: "Encode [] 257 = Inl IndexOutOfRange"
  by (simp add: Encode_def rsGeneratorPoly_above)

theorem Encode_witness:
  "Encode [False, False, False, False, False, False, False, True] 2
     = Inr ([False, False, False, False, False, False, False, True]
            @ [False, False, False, False, False, False, True, True]
            @ [False, False, False, False, False, False, True, False])
   \<and> ecBytes [False, False, False, False, False, False, False, True] 2 = [3, 2]
   \<and> Encode [False, False, False, False, False, False, False, True] 300 = Inl IndexOutOfRange"
proof -
  have r: "(2::int) \<le> 2 \<and> (2::int) \<le> 256" by simp
  from Encode_appends_remainder [of 2 "[False, False, False, False, False, False, False, True]",
      THEN conjunct1, THEN mp, OF r]
  obtain result where "Encode [False, False, False, False, False, False, False, True] 2 = Inr result"
    and "result = [False, False, False, False, False, False, False, True]
           @ concat (map bitsOfByte (ecBytes [False, False, False, False, False, False, False, True] (nat 2)))"
    by (elim exE conjE)
  then have a: "Encode [False, False, False, False, False, False, False, True] 2
     = Inr ([False, False, False, False, False, False, False, True]
            @ [False, False, False, False, False, False, True, True]
            @ [False, False, False, False, False, False, True, False])
   \<and> ecBytes [False, False, False, False, False, False, False, True] 2 = [3, 2]"
    by (simp add: ecBytes_example bitsOfByte_def)
  have "(256::int) < 300" by simp
  from Encode_appends_remainder [of 300 "[False, False, False, False, False, False, False, True]",
      THEN conjunct2, THEN mp, OF this]
  have b: "Encode [False, False, False, False, False, False, False, True] 300 = Inl IndexOutOfRange" .
  from a b show ?thesis by (simp only: simp_thms)
qed

text \<open>
  Claim C10.  \<^verbatim>\<open>Encode\<close> never changes its input: whatever the store, the pointer and
  \<open>numECBytes\<close>, every bit stream of the store, the argument among them, holds the same
  bits after the call; the result, when there is one, is a new cell.
\<close>

theorem EncodeAt_keeps_input:
  "length h \<le> length (snd (EncodeAt h a numECBytes))
   \<and> take (length h) (snd (EncodeAt h a numECBytes)) = h
   \<and> (a < length h \<longrightarrow> snd (EncodeAt h a numECBytes) ! a = h ! a)
   \<and> (\<forall>result. fst (EncodeAt h a numECBytes) = Inr result \<longrightarrow> result \<noteq> a)"
proof (cases "a < length h")
  case True
  then show ?thesis
    by (auto simp: EncodeAt_Encode nth_append split: sum.splits)
next
  case False
  then show ?thesis by (simp add: EncodeAt_def)
qed

theorem EncodeAt_witness:
  "EncodeAt [[False, False, False, False, False, False, False, True]] 0 2
     = (Inr 1, [[False, False, False, False, False, False, False, True],
                [False, False, False, False, False, False, False, True,
                 False, False, False, False, False, False, True, True,
                 False, False, False, False, False, False, True, False]])
   \<and> snd (EncodeAt [[False, False, False, False, False, False, False, True]] 0 2) ! 0
       = [False, False, False, False, False, False, False, True]"
proof -
  have e: "Encode [False, False, False, False, False, False, False, True] 2
     = Inr [False, False, False, False, False, False, False, True,
                 False, False, False, False, False, False, True, True,
                 False, False, False, False, False, False, True, False]"
    using Encode_eq [of 2 "[False, False, False, False, False, False, False, True]"]
    by (simp add: ecBytes_example bitsOfByte_def)
  have "EncodeAt [[False, False, False, False, False, False, False, True]] 0 2
     = (Inr 1, [[False, False, False, False, False, False, False, True],
                [False, False, False, False, False, False, False, True,
                 False, False, False, False, False, False, True, True,
                 False, False, False, False, False, False, True, False]])"
    by (simp add: EncodeAt_Encode e)
  with EncodeAt_keeps_input [of "[[False, False, False, False, False, False, False, True]]" 0 2]
  show ?thesis by simp
qed

section \<open>The claims about the symbol builder\<close>

text \<open>
  Claim C9.  When the stream is no longer than \<open>num_data_bits\<close> and \<open>num_data_bits\<close> is a
  multiple of 8, \<^verbatim>\<open>addPadding\<close> returns, so it does not reach its panic, and the stream
  then has exactly \<open>num_data_bits\<close> bits: the old bits, zero bits up to the next codeword
  boundary, and pad codewords \<open>11101100\<close> and \<open>00010001\<close> in turn.  A stream that is full
  already is left as it is.  No other field changes.
\<close>

theorem addPadding_fills:
  assumes "Len (data q) \<le> numDataBits (version q)" and "8 dvd numDataBits (version q)"
  shows "\<exists>d'. addPadding q = Inr (q\<lparr>data := d'\<rparr>)
           \<and> Len d' = numDataBits (version q)
           \<and> d' = (if Len (data q) = numDataBits (version q) then data q
                   else data q @ replicate ((8 - length (data q) mod 8) mod 8) False
                        @ padCodewords 0
                            ((nat (numDataBits (version q))
                               - (length (data q) + (8 - length (data q) mod 8) mod 8)) div 8))"
proof (cases "Len (data q) = numDataBits (version q)")
  case True
  then show ?thesis by (simp add: addPadding_def)
next
  case False
  from addPadding_data [OF assms False, of "version q"] False show ?thesis
    by (simp add: addPadding_def Len_def)
qed

theorem addPadding_witness:
  "addPadding \<lparr>Content = ''A'', Level = Low, VersionNumber = 1, DisableBorder = False,
      encoder = dataEncoderType1To9,
      version = \<lparr>level = Low, version = 1,
                 block = [\<lparr>numBlocks = 1, numCodewords = 5, numDataCodewords = 3\<rparr>],
                 numRemainderBits = 0\<rparr>,
      data = [False, True, False], symbol = None :: unit option, mask = 0\<rparr>
   = Inr \<lparr>Content = ''A'', Level = Low, VersionNumber = 1, DisableBorder = False,
      encoder = dataEncoderType1To9,
      version = \<lparr>level = Low, version = 1,
                 block = [\<lparr>numBlocks = 1, numCodewords = 5, numDataCodewords = 3\<rparr>],
                 numRemainderBits = 0\<rparr>,
      data = [False, True, False, False, False, False, False, False,
              True, True, True, False, True, True, False, False,
              False, False, False, True, False, False, False, True],
      symbol = None, mask = 0\<rparr>"
proof -
  let ?q = "\<lparr>Content = ''A'', Level = Low, VersionNumber = 1, DisableBorder = False,
      encoder = dataEncoderType1To9,
      version = \<lparr>level = Low, version = 1,
                 block = [\<lparr>numBlocks = 1, numCodewords = 5, numDataCodewords = 3\<rparr>],
                 numRemainderBits = 0\<rparr>,
      data = [False, True, False], symbol = None :: unit option, mask = 0\<rparr>"
  have n: "numDataBits \<lparr>level = Low, version = 1,
                 block = [\<lparr>numBlocks = 1, numCodewords = 5, numDataCodewords = 3\<rparr>],
                 numRemainderBits = 0\<rparr> = 24"
    by (simp add: numDataBits_def)
  have a: "Len (data ?q) \<le> numDataBits (version ?q)" by (simp add: n Len_def)
  have b: "8 dvd numDataBits (version ?q)" by (simp add: n)
  have p: "padCodewords 0 2 = [True, True, True, False, True, True, False, False,
              False, False, False, True, False, False, False, True]"
    by (simp add: numeral_2_eq_2)
  have r: "replicate 5 False = [False, False, False, False, False]"
    by (simp add: numeral_eq_Suc)
  from addPadding_fills [OF a b] show ?thesis
    by (simp add: n Len_def p r)
qed

text \<open>
  Claim C2.  For a version whose groups have counts that are not negative and between 2
  and 256 error correction codewords per block, and a payload of \<open>num_data_bits\<close> bits,
  \<^verbatim>\<open>encodeBlocks\<close> returns: the payload cut into blocks along the block layout (the groups
  in order, \<open>k_i\<close> data codewords each), every block's \<open>n_i - k_i\<close> Reed-Solomon bytes
  computed, then for each byte column \<open>c = 0, 1, \<dots>\<close> and each block in block-index order
  the block's \<open>c\<close>-th data byte when \<open>c < k_i\<close>, then the error correction bytes of all
  blocks interleaved the same way, then exactly \<open>numRemainderBits\<close> zero bits.
\<close>

theorem encodeBlocks_interleaves:
  assumes "\<forall>b\<in>set (block (version q)).
             0 \<le> numBlocks b \<and> 0 \<le> numDataCodewords b
             \<and> 2 \<le> numCodewords b - numDataCodewords b
             \<and> numCodewords b - numDataCodewords b \<le> 256"
    and "Len (data q) = numDataBits (version q)"
  shows "encodeBlocks q = Inr (interleavedBlocks (version q) (data q))"
  using assms by (intro encodeBlocks_eq) (simp_all add: validGroup_def)

theorem encodeBlocks_witness:
  "encodeBlocks
     \<lparr>Content = ''A'', Level = Low, VersionNumber = 1, DisableBorder = False,
      encoder = dataEncoderType1To9,
      version = \<lparr>level = Low, version = 1,
                 block = [\<lparr>numBlocks = 1, numCodewords = 3, numDataCodewords = 1\<rparr>,
                          \<lparr>numBlocks = 1, numCodewords = 4, numDataCodewords = 2\<rparr>],
                 numRemainderBits = 3\<rparr>,
      data = concat (map bitsOfByte [1, 1, 0]), symbol = None :: unit option, mask = 0\<rparr>
   = Inr (concat (map bitsOfByte [1, 1, 0, 3, 7, 2, 6]) @ [False, False, False])"
proof -
  let ?v = "\<lparr>level = Low, version = 1,
                 block = [\<lparr>numBlocks = 1, numCodewords = 3, numDataCodewords = 1\<rparr>,
                          \<lparr>numBlocks = 1, numCodewords = 4, numDataCodewords = 2\<rparr>],
                 numRemainderBits = 3\<rparr>"
  let ?q = "\<lparr>Content = ''A'', Level = Low, VersionNumber = 1, DisableBorder = False,
      encoder = dataEncoderType1To9, version = ?v,
      data = concat (map bitsOfByte [1, 1, 0]), symbol = None :: unit option, mask = 0\<rparr>"
  have a: "\<forall>b\<in>set (block (version ?q)).
             0 \<le> numBlocks b \<and> 0 \<le> numDataCodewords b
             \<and> 2 \<le> numCodewords b - numDataCodewords b
             \<and> numCodewords b - numDataCodewords b \<le> 256"
    by simp
  have b: "Len (data ?q) = numDataBits (version ?q)"
    by (simp add: Len_def numDataBits_def length_bitsOfByte)
  have "encodeBlocks ?q = Inr (interleavedBlocks (version ?q) (data ?q))"
    using a b by (rule encodeBlocks_interleaves)
  then show ?thesis
    by (simp only: QRCode.simps interleavedBlocks_example)
qed

text \<open>
  The mask loop on a \<^verbatim>\<open>QRCode\<close> as \<^verbatim>\<open>New\<close> returns it (no symbol yet), once the stream is
  padded and the blocks are encoded: when \<^verbatim>\<open>buildRegularSymbol\<close> succeeds for each of the
  eight masks with no empty module, \<^verbatim>\<open>encode\<close> returns with the symbol of a mask \<open>m\<close> in
  0..7 whose penalty score is minimal among the eight, and smaller than the score of
  every mask before it.  Whenever \<^verbatim>\<open>encode\<close> returns on such a \<^verbatim>\<open>QRCode\<close>, the recorded mask
  is in 0..7 and all eight masks were built.
\<close>

lemma encode_selects_minimal_mask:
  fixes q :: "'sym QRCode"
  assumes fresh: "symbol q = None"
    and pad: "addPadding (addTerminatorBits q
                (numTerminatorBitsRequired (version q) (Len (data q)))) = Inr q1"
    and blocks: "encodeBlocks q1 = Inr encoded"
  shows "((\<forall>k\<in>{0..7}. buildRegularSymbol (version q1) k encoded (\<not> DisableBorder q1) = Inr (S k)
                       \<and> numEmptyModules (S k) = 0) \<longrightarrow>
          (\<exists>m. encode buildRegularSymbol numEmptyModules penaltyScore q
                 = Inr (q1\<lparr>symbol := Some (S m), mask := m\<rparr>)
              \<and> 0 \<le> m \<and> m \<le> 7
              \<and> (\<forall>k\<in>{0..7}. penaltyScore (S m) \<le> penaltyScore (S k))
              \<and> (\<forall>k\<in>{0..<m}. penaltyScore (S m) < penaltyScore (S k))))
       \<and> (\<forall>q'. encode buildRegularSymbol numEmptyModules penaltyScore q = Inr q' \<longrightarrow>
             0 \<le> mask q' \<and> mask q' \<le> 7
             \<and> (\<forall>k\<in>{0..7}. \<exists>s. buildRegularSymbol (version q1) k encoded (\<not> DisableBorder q1) = Inr s
                          \<and> numEmptyModules s = 0))"
proof -
  let ?B = buildRegularSymbol and ?E = numEmptyModules and ?P = penaltyScore
  have f1: "symbol q1 = None"
    using addPadding_fields [OF pad] fresh by (simp add: addTerminatorBits_def)
  have enc: "encode ?B ?E ?P q =
      (case maskLoop ?B ?E ?P encoded 0 (q1, 0) of Inl p \<Rightarrow> Inl p | Inr (q'', penalty) \<Rightarrow> Inr q'')"
    by (simp add: encode_def Let_def pad blocks)
  have part1: "\<exists>m. encode ?B ?E ?P q = Inr (q1\<lparr>symbol := Some (S m), mask := m\<rparr>)
              \<and> 0 \<le> m \<and> m \<le> 7
              \<and> (\<forall>k\<in>{0..7}. ?P (S m) \<le> ?P (S k))
              \<and> (\<forall>k\<in>{0..<m}. ?P (S m) < ?P (S k))"
    if builds: "\<forall>k\<in>{0..7}. ?B (version q1) k encoded (\<not> DisableBorder q1) = Inr (S k) \<and> ?E (S k) = 0"
  proof -
    have b: "?B (version q1) k encoded (\<not> DisableBorder q1) = Inr (S k) \<and> ?E (S k) = 0"
      if "0 \<le> k" "k < 8" for k
    proof -
      from that have "k \<in> {0..7}" by simp
      with builds show ?thesis by (rule bspec)
    qed
    have "\<exists>c. maskLoop ?B ?E ?P encoded 0 (q1, 0)
            = Inr (q1\<lparr>symbol := Some (S c), mask := c\<rparr>, ?P (S c))
          \<and> selected (\<lambda>k. ?P (S k)) 8 c"
      using b f1 by (rule maskLoop_fresh)
    then obtain c where c: "maskLoop ?B ?E ?P encoded 0 (q1, 0)
            = Inr (q1\<lparr>symbol := Some (S c), mask := c\<rparr>, ?P (S c))"
      and s: "selected (\<lambda>k. ?P (S k)) 8 c" by (elim exE conjE)
    have e: "encode ?B ?E ?P q = Inr (q1\<lparr>symbol := Some (S c), mask := c\<rparr>)"
      unfolding enc c by simp
    from s have r: "0 \<le> c" "c \<le> 7" by (simp_all add: selected_def)
    have le: "\<forall>k\<in>{0..7}. ?P (S c) \<le> ?P (S k)"
    proof
      fix k :: int assume "k \<in> {0..7}"
      then have "k \<in> {0..<8}" by simp
      with s show "?P (S c) \<le> ?P (S k)" unfolding selected_def by (elim conjE) (rule bspec)
    qed
    from s have lt: "\<forall>k\<in>{0..<c}. ?P (S c) < ?P (S k)" unfolding selected_def by (elim conjE)
    show ?thesis
      by (rule exI [of _ c]) (intro conjI e r le lt)
  qed
  have part2: "0 \<le> mask q' \<and> mask q' \<le> 7
             \<and> (\<forall>k\<in>{0..7}. \<exists>s. ?B (version q1) k encoded (\<not> DisableBorder q1) = Inr s \<and> ?E s = 0)"
    if r: "encode ?B ?E ?P q = Inr q'" for q'
  proof -
    have "\<exists>pen'. maskLoop ?B ?E ?P encoded 0 (q1, 0) = Inr (q', pen')"
    proof (cases "maskLoop ?B ?E ?P encoded 0 (q1, 0)")
      case (Inl p)
      with r show ?thesis unfolding enc by simp
    next
      case (Inr x)
      obtain q2 pen2 where x: "x = (q2, pen2)" by (cases x)
      from r have "q2 = q'" unfolding enc Inr x by simp
      with Inr x show ?thesis by simp
    qed
    then obtain pen' where ml: "maskLoop ?B ?E ?P encoded 0 (q1, 0) = Inr (q', pen')" ..
    have "0 \<le> mask q' \<and> mask q' < 8"
      using _ ml by (rule maskLoop_mask_range' [where n = 8]) (simp_all add: f1)
    then have m: "0 \<le> mask q'" "mask q' \<le> 7" by simp_all
    have al: "\<forall>k\<in>{0..7}. \<exists>s. ?B (version q1) k encoded (\<not> DisableBorder q1) = Inr s \<and> ?E s = 0"
    proof
      fix k :: int assume "k \<in> {0..7}"
      then have k: "0 \<le> k" "k < 8" by simp_all
      show "\<exists>s. ?B (version q1) k encoded (\<not> DisableBorder q1) = Inr s \<and> ?E s = 0"
        using _ ml _ k by (rule maskLoop_all_built [where n = 8]) simp_all
    qed
    from m al show ?thesis by (intro conjI)
  qed
  show ?thesis
  proof (intro conjI impI allI)
    assume "\<forall>k\<in>{0..7}. ?B (version q1) k encoded (\<not> DisableBorder q1) = Inr (S k) \<and> ?E (S k) = 0"
    then show "\<exists>m. encode ?B ?E ?P q = Inr (q1\<lparr>symbol := Some (S m), mask := m\<rparr>)
              \<and> 0 \<le> m \<and> m \<le> 7
              \<and> (\<forall>k\<in>{0..7}. ?P (S m) \<le> ?P (S k))
              \<and> (\<forall>k\<in>{0..<m}. ?P (S m) < ?P (S k))"
      by (rule part1)
  next
    fix q' assume "encode ?B ?E ?P q = Inr q'"
    from part2 [OF this] show "0 \<le> mask q'" by (elim conjE)
  next
    fix q' assume "encode ?B ?E ?P q = Inr q'"
    from part2 [OF this] show "mask q' \<le> 7" by (elim conjE)
  next
    fix q' assume "encode ?B ?E ?P q = Inr q'"
    from part2 [OF this]
    show "\<forall>k\<in>{0..7}. \<exists>s. ?B (version q1) k encoded (\<not> DisableBorder q1) = Inr s \<and> ?E s = 0"
      by (elim conjE)
  qed
qed

text \<open>
  Claim C5.  \<^verbatim>\<open>encode\<close> is to select, among the eight masks it evaluates, the symbol of
  minimal penalty score, the smallest mask first.  It runs on every call of \<^verbatim>\<open>Bitmap\<close> and
  \<^verbatim>\<open>Image\<close>, and from the second call on it selects nothing.  Here a symbol is the pair of its mask and whether it has a border,
  no symbol has an empty module, and masks 2 and 5 score 3, the others 10.  The first
  call, on a \<^verbatim>\<open>QRCode\<close> without a symbol, records mask 2 and its symbol with a border.  Then
  \<^verbatim>\<open>DisableBorder\<close> is set and \<^verbatim>\<open>encode\<close> runs again: it builds the eight symbols without a
  border, of which the claim's choice is the one of mask 2, and it returns the
  \<^verbatim>\<open>QRCode\<close> with the symbol of the first call, the one with a border, which is none of the
  eight.
\<close>

theorem encode_keeps_stale_symbol:
  "encode (\<lambda>v k encoded border. Inr (k, border)) (\<lambda>s. 0)
          (\<lambda>s. if fst s = 2 \<or> fst s = 5 then 3 else 10)
     \<lparr>Content = ''A'', Level = Low, VersionNumber = 1, DisableBorder = False,
      encoder = dataEncoderType1To9,
      version = \<lparr>level = Low, version = 1,
                 block = [\<lparr>numBlocks = 1, numCodewords = 3, numDataCodewords = 1\<rparr>],
                 numRemainderBits = 0\<rparr>,
      data = bitsOfByte 1, symbol = None, mask = 0\<rparr>
   = Inr \<lparr>Content = ''A'', Level = Low, VersionNumber = 1, DisableBorder = False,
      encoder = dataEncoderType1To9,
      version = \<lparr>level = Low, version = 1,
                 block = [\<lparr>numBlocks = 1, numCodewords = 3, numDataCodewords = 1\<rparr>],
                 numRemainderBits = 0\<rparr>,
      data = bitsOfByte 1, symbol = Some (2, True), mask = 2\<rparr>
   \<and> encode (\<lambda>v k encoded border. Inr (k, border)) (\<lambda>s. 0)
          (\<lambda>s. if fst s = 2 \<or> fst s = 5 then 3 else 10)
     \<lparr>Content = ''A'', Level = Low, VersionNumber = 1, DisableBorder = True,
      encoder = dataEncoderType1To9,
      version = \<lparr>level = Low, version = 1,
                 block = [\<lparr>numBlocks = 1, numCodewords = 3, numDataCodewords = 1\<rparr>],
                 numRemainderBits = 0\<rparr>,
      data = bitsOfByte 1, symbol = Some (2, True), mask = 2\<rparr>
   = Inr \<lparr>Content = ''A'', Level = Low, VersionNumber = 1, DisableBorder = True,
      encoder = dataEncoderType1To9,
      version = \<lparr>level = Low, version = 1,
                 block = [\<lparr>numBlocks = 1, numCodewords = 3, numDataCodewords = 1\<rparr>],
                 numRemainderBits = 0\<rparr>,
      data = bitsOfByte 1, symbol = Some (2, True), mask = 2\<rparr>"
proof -
  let ?v = "\<lparr>level = Low, version = 1,
                 block = [\<lparr>numBlocks = 1, numCodewords = 3, numDataCodewords = 1\<rparr>],
                 numRemainderBits = 0\<rparr>"
  let ?q = "\<lparr>Content = ''A'', Level = Low, VersionNumber = 1, DisableBorder = False,
      encoder = dataEncoderType1To9, version = ?v,
      data = bitsOfByte 1, symbol = None :: (int \<times> bool) option, mask = 0\<rparr>"
  let ?r = "\<lparr>Content = ''A'', Level = Low, VersionNumber = 1, DisableBorder = True,
      encoder = dataEncoderType1To9, version = ?v,
      data = bitsOfByte 1, symbol = Some (2 :: int, True), mask = 2\<rparr>"
  let ?B = "\<lambda>(v :: qrCodeVersion) (k :: int) (encoded :: bitset) (border :: bool).
              Inr (k, border) :: string + int \<times> bool"
  let ?E = "\<lambda>s :: int \<times> bool. 0 :: int"
  let ?P = "\<lambda>s :: int \<times> bool. if fst s = 2 \<or> fst s = 5 then 3 else 10 :: int"
  let ?enc = "concat (map bitsOfByte [1, 3, 2])"
  have n: "numDataBits ?v = 8" by (simp add: numDataBits_def)
  have fresh: "symbol ?q = None" by simp
  have pad: "addPadding (addTerminatorBits ?q
                (numTerminatorBitsRequired (version ?q) (Len (data ?q)))) = Inr ?q"
    by (simp add: addPadding_def addTerminatorBits_def numTerminatorBitsRequired_def n Len_def
        length_bitsOfByte AppendNumBools_def)
  have "encodeBlocks ?q = Inr (interleavedBlocks (version ?q) (data ?q))"
    by (rule encodeBlocks_eq) (simp_all add: validGroup_def n Len_def length_bitsOfByte)
  then have blocks: "encodeBlocks ?q = Inr ?enc"
    by (simp only: QRCode.simps interleavedBlocks_single)
  have builds: "\<forall>k\<in>{0..7}. ?B (version ?q) k ?enc (\<not> DisableBorder ?q) = Inr ((\<lambda>k. (k, True)) k)
                       \<and> ?E ((\<lambda>k. (k, True)) k) = 0"
    by simp
  from encode_selects_minimal_mask [OF fresh pad blocks, of ?B "\<lambda>k. (k, True)" ?E ?P] builds
  obtain m where e: "encode ?B ?E ?P ?q = Inr (?q\<lparr>symbol := Some (m, True), mask := m\<rparr>)"
    and r: "0 \<le> m" "m \<le> 7"
    and le: "\<forall>k\<in>{0..7}. ?P (m, True) \<le> ?P (k, True)"
    and lt: "\<forall>k\<in>{0..<m}. ?P (m, True) < ?P (k, True)"
    by blast
  have "(2::int) \<in> {0..7}" by simp
  with le have "?P (m, True) \<le> ?P (2, True)" by (rule bspec)
  then have "m = 2 \<or> m = 5" by (simp split: if_splits)
  moreover have "m \<noteq> 5"
  proof
    assume "m = 5"
    then have "(2::int) \<in> {0..<m}" by simp
    with lt have "?P (m, True) < ?P (2, True)" by (rule bspec)
    with \<open>m = 5\<close> show False by simp
  qed
  ultimately have "m = 2" by simp
  with e have first: "encode ?B ?E ?P ?q = Inr (?q\<lparr>symbol := Some (2, True), mask := 2\<rparr>)"
    by simp
  have stale: "symbol ?r \<noteq> None" by simp
  have pad2: "addPadding (addTerminatorBits ?r
                (numTerminatorBitsRequired (version ?r) (Len (data ?r)))) = Inr ?r"
    by (simp add: addPadding_def addTerminatorBits_def numTerminatorBitsRequired_def n Len_def
        length_bitsOfByte AppendNumBools_def)
  have "encodeBlocks ?r = Inr (interleavedBlocks (version ?r) (data ?r))"
    by (rule encodeBlocks_eq) (simp_all add: validGroup_def n Len_def length_bitsOfByte)
  then have blocks2: "encodeBlocks ?r = Inr ?enc"
    by (simp only: QRCode.simps interleavedBlocks_single)
  have second: "encode ?B ?E ?P ?r = Inr ?r"
    using stale pad2 blocks2 by (rule encode_stale) simp
  from first second show ?thesis by simp
qed

text \<open>
  Claim C6, as amended.  \<^verbatim>\<open>New\<close> tries the bands 1-9, 10-26 and 27-40 in this order and
  returns the \<^verbatim>\<open>QRCode\<close> of the first band the content fits, with the stream of that band's
  encoder and the smallest version of the band, at the level, that holds the stream.
  When the content fits no band, \<^verbatim>\<open>New\<close> returns an error and no \<^verbatim>\<open>QRCode\<close>: the error is
  \<open>ContentTooLong\<close> when the encoder returned a stream for the band 27-40, and the
  encoder's own error for the band 27-40 when it failed there (the test \<^verbatim>\<open>err != nil\<close>
  comes before the test of \<^verbatim>\<open>chosenVersion\<close>).
\<close>

theorem New_picks_first_fitting_band:
  "(fitsBand encodeData (chooseQRCodeVersion versions) content level' dataEncoderType1To9
      = Some (bits, v) \<longrightarrow>
    New encodeData (chooseQRCodeVersion versions) content level'
      = Inr (newQRCode content level' dataEncoderType1To9 bits v :: 'sym QRCode))
   \<and> (fitsBand encodeData (chooseQRCodeVersion versions) content level' dataEncoderType1To9 = None
      \<and> fitsBand encodeData (chooseQRCodeVersion versions) content level' dataEncoderType10To26
          = Some (bits, v) \<longrightarrow>
    New encodeData (chooseQRCodeVersion versions) content level'
      = Inr (newQRCode content level' dataEncoderType10To26 bits v :: 'sym QRCode))
   \<and> (fitsBand encodeData (chooseQRCodeVersion versions) content level' dataEncoderType1To9 = None
      \<and> fitsBand encodeData (chooseQRCodeVersion versions) content level' dataEncoderType10To26 = None
      \<and> fitsBand encodeData (chooseQRCodeVersion versions) content level' dataEncoderType27To40
          = Some (bits, v) \<longrightarrow>
    New encodeData (chooseQRCodeVersion versions) content level'
      = Inr (newQRCode content level' dataEncoderType27To40 bits v :: 'sym QRCode))
   \<and> (fitsBand encodeData (chooseQRCodeVersion versions) content level' t = Some (bits, v) \<longrightarrow>
        encodeData t content = Inr bits \<and> v \<in> set versions \<and> level v = level'
        \<and> minVersion t \<le> qrCodeVersion.version v \<and> qrCodeVersion.version v \<le> maxVersion t
        \<and> Len bits \<le> numDataBits v
        \<and> (\<forall>v'\<in>set versions.
              level v' = level' \<and> minVersion t \<le> qrCodeVersion.version v'
              \<and> qrCodeVersion.version v' \<le> maxVersion t \<and> Len bits \<le> numDataBits v'
              \<longrightarrow> qrCodeVersion.version v \<le> qrCodeVersion.version v'))
   \<and> ((\<forall>t. fitsBand encodeData (chooseQRCodeVersion versions) content level' t = None) \<longrightarrow>
        (\<exists>e. (New encodeData (chooseQRCodeVersion versions) content level'
                 :: error + 'sym QRCode) = Inl e)
        \<and> (encodeData dataEncoderType27To40 content = Inr bits' \<longrightarrow>
             (New encodeData (chooseQRCodeVersion versions) content level'
                 :: error + 'sym QRCode) = Inl ContentTooLong)
        \<and> (encodeData dataEncoderType27To40 content = Inl e' \<longrightarrow>
             (New encodeData (chooseQRCodeVersion versions) content level'
                 :: error + 'sym QRCode) = Inl e'))"
proof (intro conjI impI)
  assume "fitsBand encodeData (chooseQRCodeVersion versions) content level' t = Some (bits, v)"
  from fitsBand_Some [OF this]
  show "encodeData t content = Inr bits" "v \<in> set versions" "level v = level'"
    "minVersion t \<le> qrCodeVersion.version v" "qrCodeVersion.version v \<le> maxVersion t"
    "Len bits \<le> numDataBits v"
    "\<forall>v'\<in>set versions.
              level v' = level' \<and> minVersion t \<le> qrCodeVersion.version v'
              \<and> qrCodeVersion.version v' \<le> maxVersion t \<and> Len bits \<le> numDataBits v'
              \<longrightarrow> qrCodeVersion.version v \<le> qrCodeVersion.version v'"
    by blast+
next
  assume n: "\<forall>t. fitsBand encodeData (chooseQRCodeVersion versions) content level' t = None"
  then have eq: "(New encodeData (chooseQRCodeVersion versions) content level'
                 :: error + 'sym QRCode)
      = (case encodeData dataEncoderType27To40 content of
           Inl e \<Rightarrow> Inl e | Inr bits \<Rightarrow> Inl ContentTooLong)"
    by (simp add: New_eq)
  show "\<exists>e. (New encodeData (chooseQRCodeVersion versions) content level'
                 :: error + 'sym QRCode) = Inl e"
    unfolding eq by (cases "encodeData dataEncoderType27To40 content") simp_all
  {
    assume "encodeData dataEncoderType27To40 content = Inr bits'"
    then show "(New encodeData (chooseQRCodeVersion versions) content level'
                 :: error + 'sym QRCode) = Inl ContentTooLong"
      unfolding eq by simp
  }
  {
    assume "encodeData dataEncoderType27To40 content = Inl e'"
    then show "(New encodeData (chooseQRCodeVersion versions) content level'
                 :: error + 'sym QRCode) = Inl e'"
      unfolding eq by simp
  }
qed (simp_all add: New_eq)

text \<open>
  The claim as first stated, \<open>ContentTooLong\<close> whenever the content fits no band, fails
  when the encoder fails: no band fits, and \<^verbatim>\<open>New\<close> returns the encoder's error.
\<close>

theorem New_picks_first_fitting_band_counterexample:
  "fitsBand (\<lambda>t content. Inl (OtherError ''length too long to be represented''))
        (chooseQRCodeVersion
           [\<lparr>level = Low, version = 1,
             block = [\<lparr>numBlocks = 1, numCodewords = 3, numDataCodewords = 1\<rparr>],
             numRemainderBits = 0\<rparr>,
            \<lparr>level = Low, version = 2,
             block = [\<lparr>numBlocks = 1, numCodewords = 5, numDataCodewords = 2\<rparr>],
             numRemainderBits = 0\<rparr>])
        ''A'' Low dataEncoderType1To9 = None
   \<and> fitsBand (\<lambda>t content. Inl (OtherError ''length too long to be represented''))
        (chooseQRCodeVersion
           [\<lparr>level = Low, version = 1,
             block = [\<lparr>numBlocks = 1, numCodewords = 3, numDataCodewords = 1\<rparr>],
             numRemainderBits = 0\<rparr>,
            \<lparr>level = Low, version = 2,
             block = [\<lparr>numBlocks = 1, numCodewords = 5, numDataCodewords = 2\<rparr>],
             numRemainderBits = 0\<rparr>])
        ''A'' Low dataEncoderType10To26 = None
   \<and> fitsBand (\<lambda>t content. Inl (OtherError ''length too long to be represented''))
        (chooseQRCodeVersion
           [\<lparr>level = Low, version = 1,
             block = [\<lparr>numBlocks = 1, numCodewords = 3, numDataCodewords = 1\<rparr>],
             numRemainderBits = 0\<rparr>,
            \<lparr>level = Low, version = 2,
             block = [\<lparr>numBlocks = 1, numCodewords = 5, numDataCodewords = 2\<rparr>],
             numRemainderBits = 0\<rparr>])
        ''A'' Low dataEncoderType27To40 = None
   \<and> (New (\<lambda>t content. Inl (OtherError ''length too long to be represented''))
        (chooseQRCodeVersion
           [\<lparr>level = Low, version = 1,
             block = [\<lparr>numBlocks = 1, numCodewords = 3, numDataCodewords = 1\<rparr>],
             numRemainderBits = 0\<rparr>,
            \<lparr>level = Low, version = 2,
             block = [\<lparr>numBlocks = 1, numCodewords = 5, numDataCodewords = 2\<rparr>],
             numRemainderBits = 0\<rparr>])
        ''A'' Low :: error + unit QRCode) = Inl (OtherError ''length too long to be represented'')
   \<and> (New (\<lambda>t content. Inl (OtherError ''length too long to be represented''))
        (chooseQRCodeVersion
           [\<lparr>level = Low, version = 1,
             block = [\<lparr>numBlocks = 1, numCodewords = 3, numDataCodewords = 1\<rparr>],
             numRemainderBits = 0\<rparr>,
            \<lparr>level = Low, version = 2,
             block = [\<lparr>numBlocks = 1, numCodewords = 5, numDataCodewords = 2\<rparr>],
             numRemainderBits = 0\<rparr>])
        ''A'' Low :: error + unit QRCode) \<noteq> Inl ContentTooLong"
  by (simp add: New_def fitsBand_def chooseQRCodeVersion_def numDataBits_def Len_def)

theorem New_witness:
  "(New (\<lambda>t content. Inr (replicate 12 False))
        (chooseQRCodeVersion
           [\<lparr>level = Low, version = 1,
             block = [\<lparr>numBlocks = 1, numCodewords = 3, numDataCodewords = 1\<rparr>],
             numRemainderBits = 0\<rparr>,
            \<lparr>level = Low, version = 2,
             block = [\<lparr>numBlocks = 1, numCodewords = 5, numDataCodewords = 2\<rparr>],
             numRemainderBits = 0\<rparr>])
        ''A'' Low :: error + unit QRCode)
     = Inr \<lparr>Content = ''A'', Level = Low, VersionNumber = 2, DisableBorder = False,
            encoder = dataEncoderType1To9,
            version = \<lparr>level = Low, version = 2,
                       block = [\<lparr>numBlocks = 1, numCodewords = 5, numDataCodewords = 2\<rparr>],
                       numRemainderBits = 0\<rparr>,
            data = replicate 12 False, symbol = None, mask = 0\<rparr>
   \<and> (New (\<lambda>t content. Inr (replicate 20 False))
        (chooseQRCodeVersion
           [\<lparr>level = Low, version = 1,
             block = [\<lparr>numBlocks = 1, numCodewords = 3, numDataCodewords = 1\<rparr>],
             numRemainderBits = 0\<rparr>,
            \<lparr>level = Low, version = 2,
             block = [\<lparr>numBlocks = 1, numCodewords = 5, numDataCodewords = 2\<rparr>],
             numRemainderBits = 0\<rparr>])
        ''A'' Low :: error + unit QRCode) = Inl ContentTooLong
   \<and> (New (\<lambda>t content. Inl (OtherError ''no data to encode''))
        (chooseQRCodeVersion
           [\<lparr>level = Low, version = 1,
             block = [\<lparr>numBlocks = 1, numCodewords = 3, numDataCodewords = 1\<rparr>],
             numRemainderBits = 0\<rparr>,
            \<lparr>level = Low, version = 2,
             block = [\<lparr>numBlocks = 1, numCodewords = 5, numDataCodewords = 2\<rparr>],
             numRemainderBits = 0\<rparr>])
        [] Low :: error + unit QRCode) = Inl (OtherError ''no data to encode'')"
proof -
  let ?v1 = "\<lparr>level = Low, version = 1,
             block = [\<lparr>numBlocks = 1, numCodewords = 3, numDataCodewords = 1\<rparr>],
             numRemainderBits = 0\<rparr>"
  let ?v2 = "\<lparr>level = Low, version = 2,
             block = [\<lparr>numBlocks = 1, numCodewords = 5, numDataCodewords = 2\<rparr>],
             numRemainderBits = 0\<rparr>"
  let ?e12 = "\<lambda>(t :: dataEncoderType) (content :: string). Inr (replicate 12 False) :: error + bitset"
  let ?e20 = "\<lambda>(t :: dataEncoderType) (content :: string). Inr (replicate 20 False) :: error + bitset"
  let ?err = "\<lambda>(t :: dataEncoderType) (content :: string).
                Inl (OtherError ''no data to encode'') :: error + bitset"
  have f: "fitsBand ?e12 (chooseQRCodeVersion [?v1, ?v2]) ''A'' Low dataEncoderType1To9
      = Some (replicate 12 False, ?v2)"
    by (simp add: fitsBand_def chooseQRCodeVersion_def numDataBits_def Len_def)
  have n: "\<forall>t. fitsBand ?e20 (chooseQRCodeVersion [?v1, ?v2]) ''A'' Low t = None"
    by (simp add: fitsBand_def chooseQRCodeVersion_def numDataBits_def Len_def)
  have x: "?e20 dataEncoderType27To40 ''A'' = Inr (replicate 20 False)" by simp
  have n': "\<forall>t. fitsBand ?err (chooseQRCodeVersion [?v1, ?v2]) [] Low t = None"
    by (simp add: fitsBand_def)
  have x': "?err dataEncoderType27To40 [] = Inl (OtherError ''no data to encode'')" by simp
  from New_picks_first_fitting_band [of ?e12 "[?v1, ?v2]" "''A''" Low "replicate 12 False" ?v2,
      where ?'sym = unit] f
  have a: "(New ?e12 (chooseQRCodeVersion [?v1, ?v2]) ''A'' Low :: error + unit QRCode)
      = Inr (newQRCode ''A'' Low dataEncoderType1To9 (replicate 12 False) ?v2)"
    by blast
  from New_picks_first_fitting_band [of ?e20 "[?v1, ?v2]" "''A''" Low _ _ _ "replicate 20 False",
      where ?'sym = unit] n x
  have b: "(New ?e20 (chooseQRCodeVersion [?v1, ?v2]) ''A'' Low :: error + unit QRCode)
      = Inl ContentTooLong"
    by blast
  from New_picks_first_fitting_band [of ?err "[?v1, ?v2]" "[]" Low _ _ _ _ "OtherError ''no data to encode''",
      where ?'sym = unit] n' x'
  have c: "(New ?err (chooseQRCodeVersion [?v1, ?v2]) [] Low :: error + unit QRCode)
      = Inl (OtherError ''no data to encode'')"
    by blast
  from a b c show ?thesis by (simp add: newQRCode_def)
qed

text \<open>
  Claim C7, as amended.  For a recovery level outside L, M, Q and H, and a catalog all of
  whose entries have one of these four levels, \<^verbatim>\<open>New\<close> returns an error and no \<^verbatim>\<open>QRCode\<close>.
  The error is not \<open>InvalidRecoveryLevel\<close>, which \<^verbatim>\<open>New\<close> never constructs: no version has
  the level, so the error is \<open>ContentTooLong\<close>, or the encoder's own error when the
  encoder fails for the band 27-40.
\<close>

theorem New_invalid_level:
  assumes "level' \<notin> {Low, Medium, High, Highest}"
    and "\<forall>v\<in>set versions. level v \<in> {Low, Medium, High, Highest}"
  shows "(\<exists>e. (New encodeData (chooseQRCodeVersion versions) content level'
                 :: error + 'sym QRCode) = Inl e
              \<and> (e = ContentTooLong \<or> encodeData dataEncoderType27To40 content = Inl e))
         \<and> ((\<forall>t. encodeData t content \<noteq> Inl InvalidRecoveryLevel) \<longrightarrow>
              (New encodeData (chooseQRCodeVersion versions) content level'
                 :: error + 'sym QRCode) \<noteq> Inl InvalidRecoveryLevel)"
proof -
  have "chooseQRCodeVersion versions level' t n = None" for t n
    using assms by (auto simp: chooseQRCodeVersion_None)
  then have "fitsBand encodeData (chooseQRCodeVersion versions) content level' t = None" for t
    by (simp add: fitsBand_def split: sum.splits)
  then have eq: "(New encodeData (chooseQRCodeVersion versions) content level'
                 :: error + 'sym QRCode)
      = (case encodeData dataEncoderType27To40 content of
           Inl e \<Rightarrow> Inl e | Inr bits \<Rightarrow> Inl ContentTooLong)"
    by (simp add: New_eq)
  show ?thesis
    unfolding eq by (cases "encodeData dataEncoderType27To40 content") auto
qed

text \<open>
  The claim as first stated fails at level 7: the error is \<open>ContentTooLong\<close>, where the
  claim says \<open>InvalidRecoveryLevel\<close>.  The encoder here returns a stream of 12 bits for
  every band and the catalog has one version.
\<close>

theorem New_invalid_level_counterexample:
  "(New (\<lambda>t content. Inr (replicate 12 False))
        (chooseQRCodeVersion
           [\<lparr>level = Low, version = 1,
             block = [\<lparr>numBlocks = 1, numCodewords = 5, numDataCodewords = 2\<rparr>],
             numRemainderBits = 0\<rparr>])
        ''A'' 7 :: error + unit QRCode) = Inl ContentTooLong
   \<and> (New (\<lambda>t content. Inr (replicate 12 False))
        (chooseQRCodeVersion
           [\<lparr>level = Low, version = 1,
             block = [\<lparr>numBlocks = 1, numCodewords = 5, numDataCodewords = 2\<rparr>],
             numRemainderBits = 0\<rparr>])
        ''A'' 7 :: error + unit QRCode) \<noteq> Inl InvalidRecoveryLevel"
  by (simp add: New_def chooseQRCodeVersion_def Low_def)

theorem New_invalid_level_witness:
  "(New (\<lambda>t content. Inr (replicate 12 False))
        (chooseQRCodeVersion
           [\<lparr>level = Low, version = 1,
             block = [\<lparr>numBlocks = 1, numCodewords = 5, numDataCodewords = 2\<rparr>],
             numRemainderBits = 0\<rparr>])
        ''A'' 7 :: error + unit QRCode) = Inl ContentTooLong"
proof -
  let ?cat = "[\<lparr>level = Low, version = 1,
             block = [\<lparr>numBlocks = 1, numCodewords = 5, numDataCodewords = 2\<rparr>],
             numRemainderBits = 0\<rparr>]"
  have a: "(7 :: int) \<notin> {Low, Medium, High, Highest}"
    by (simp add: Low_def Medium_def High_def Highest_def)
  have b: "\<forall>v\<in>set ?cat. level v \<in> {Low, Medium, High, Highest}" by simp
  from New_invalid_level [OF a b, of "\<lambda>t content. Inr (replicate 12 False)" "''A''",
      where ?'sym = unit]
  show ?thesis by auto
qed

end
